theory Spec2Isabelle
  imports Main "HOL-Library.Word"
begin

section \<open>Instructions\<close>

text \<open>
  The nine operation codes: the members of \<open>enum struct OpCode\<close> in Switch.cpp and the
  nine labels of the label-threaded engines (ComputedGotos.cpp, main2.cpp,
  direct_threading_demo.cpp), whose addresses play the role of operation codes.
\<close>

datatype OpCode = INCR | DECR | LEFT | RIGHT | OPEN | CLOSE | PUT | GET | HALT

text \<open>
  \<open>union Instruction { OpCode opcode; int operand; }\<close>: a slot of the program vector holds
  an operation code or an operand. The union is kept tagged here: reading a slot through
  the member that was not written is a fault of the model (see \<open>fault\<close>).
  \<open>NullOpcode\<close> is the slot \<open>{nullptr}\<close> that the label engines plant as the dummy operand.
  Operands are \<open>int\<close> in the source; every operand the planter writes is a size of the
  program vector, so they are natural numbers here (sizes stay far below \<open>2^31\<close>).
\<close>

datatype Instruction = Opcode OpCode | Operand nat | NullOpcode

text \<open>\<open>typedef unsigned char num\<close>: a tape cell.\<close>

type_synonym num = "8 word"

text \<open>
  What the source leaves undefined, as explicit faults:
  \<open>StackEmpty\<close>: \<open>indexes.back()\<close> on an empty vector (planter, a \<open>]\<close> with no open \<open>[\<close>);
  \<open>ProgramOutOfRange\<close>: \<open>pc\<close> dereferenced outside the program vector;
  \<open>NotAnOpcode\<close>: a slot holding an operand (or the null dummy) dispatched as an operation code;
  \<open>NotAnOperand\<close>: a slot holding an operation code (an unresolved dummy) read as an operand;
  \<open>TapeOutOfRange\<close>: \<open>loc\<close> dereferenced outside the 30000 cells.
\<close>

datatype fault = StackEmpty | ProgramOutOfRange | NotAnOpcode | NotAnOperand | TapeOutOfRange

section \<open>CodePlanter\<close>

text \<open>
  The table \<open>opcode_map\<close> that every run method builds before planting. The key
  \<open>'\0'\<close> is how \<open>plantProgram\<close> finds the HALT code; \<open>plantChar\<close> looks characters up in
  the same table.
\<close>

definition opcode_map :: "char \<rightharpoonup> OpCode" where
  "opcode_map =
     [CHR ''+'' \<mapsto> INCR, CHR ''-'' \<mapsto> DECR, CHR ''<'' \<mapsto> LEFT, CHR ''>'' \<mapsto> RIGHT,
      CHR ''['' \<mapsto> OPEN, CHR '']'' \<mapsto> CLOSE, CHR ''.'' \<mapsto> PUT, CHR '','' \<mapsto> GET,
      CHR 0x00 \<mapsto> HALT]"

text \<open>
  The planter works on the engine's \<open>program\<close> vector (held by reference) and its own
  \<open>indexes\<close> vector, used as a stack through \<open>push_back\<close>, \<open>back\<close> and \<open>pop_back\<close>: the
  last element of the list is the top. Its elements are \<open>int\<close> in the source and hold
  sizes of the program vector; like the operands they are natural numbers here.
\<close>

type_synonym planter = "Instruction list \<times> nat list"

text \<open>
  \<open>CodePlanter::plantChar\<close>. The three planter classes with a \<open>std::map\<close> table
  (Switch.cpp, ComputedGotos.cpp, main2.cpp) differ only in the dummy they plant after
  \<open>[\<close>: \<open>{OpCode::HALT}\<close> in Switch.cpp, \<open>{nullptr}\<close> in the other two; the dummy is the
  first argument. \<open>start\<close> is always an index of the program vector (lemma
  \<open>plantChars_indexes_bound\<close> below), so \<open>program[start]\<close> is in range.
\<close>

definition plantChar :: "Instruction \<Rightarrow> char \<Rightarrow> planter \<Rightarrow> fault + planter" where
  "plantChar dummy ch st =
     (case st of (program, indexes) \<Rightarrow>
       (case opcode_map ch of
          None \<Rightarrow> Inr (program, indexes)
        | Some oc \<Rightarrow>
            (let program = program @ [Opcode oc] in
             if ch = CHR ''['' then
               Inr (program @ [dummy], indexes @ [length program])
             else if ch = CHR '']'' then
               (if indexes = [] then Inl StackEmpty
                else
                  (let end' = length program;
                       start = last indexes;
                       indexes = butlast indexes;
                       program = program[start := Operand (end' + 1)]
                   in Inr (program @ [Operand (start + 1)], indexes)))
             else Inr (program, indexes))))"

text \<open>The loop of \<open>plantProgram\<close> over the characters of the source file.\<close>

fun plantChars :: "Instruction \<Rightarrow> string \<Rightarrow> planter \<Rightarrow> fault + planter" where
  "plantChars dummy [] st = Inr st"
| "plantChars dummy (ch # rest) st =
     (case plantChar dummy ch st of
        Inl f \<Rightarrow> Inl f
      | Inr st' \<Rightarrow> plantChars dummy rest st')"

text \<open>
  \<open>CodePlanter::plantProgram\<close>: a fresh planter (empty \<open>indexes\<close>) on the engine's
  program vector; after the last character it appends \<open>opcode_map.at('\0')\<close>. The result
  keeps the final \<open>indexes\<close> so that theorems can speak about it.
\<close>

definition plantProgram :: "Instruction \<Rightarrow> string \<Rightarrow> Instruction list \<Rightarrow> fault + planter" where
  "plantProgram dummy src program =
     (case plantChars dummy src (program, []) of
        Inl f \<Rightarrow> Inl f
      | Inr (program', indexes) \<Rightarrow> Inr (program' @ [Opcode HALT], indexes))"

definition switch_dummy :: Instruction where
  "switch_dummy = Opcode HALT"

definition label_dummy :: Instruction where
  "label_dummy = NullOpcode"

subsection \<open>The planter of direct\_threading\_demo.cpp\<close>

text \<open>
  The demonstration file has its own planter. Its table is a function from
  characters to indexes into an array of the nine label addresses; a character outside
  the table gets the largest \<open>size_t\<close>.
\<close>

definition numberOfOpCodes :: nat where
  "numberOfOpCodes = 9"

definition OperatorToOpCodeIndex :: "char \<Rightarrow> nat" where
  "OperatorToOpCodeIndex opcodeCharacter =
     (if opcodeCharacter = CHR ''+'' then 0
      else if opcodeCharacter = CHR ''-'' then 1
      else if opcodeCharacter = CHR ''<'' then 2
      else if opcodeCharacter = CHR ''>'' then 3
      else if opcodeCharacter = CHR ''['' then 4
      else if opcodeCharacter = CHR '']'' then 5
      else if opcodeCharacter = CHR ''.'' then 6
      else if opcodeCharacter = CHR '','' then 7
      else if opcodeCharacter = CHR 0x00 then 8
      else 18446744073709551615)"

text \<open>The array \<open>opcode_map\<close> that \<open>Engine::runFile\<close> fills with the label addresses.\<close>

definition demo_opcode_map :: "OpCode list" where
  "demo_opcode_map = [INCR, DECR, LEFT, RIGHT, OPEN, CLOSE, PUT, GET, HALT]"

text \<open>
  \<open>CodePlanter::plantChar\<close> of the demonstration file. The guard lets every index up to
  \<open>numberOfOpCodes\<close> pass; \<open>OperatorToOpCodeIndex\<close> returns 0 to 8 or the largest
  \<open>size_t\<close>, so the array is always read in range. The dummy is \<open>{nullptr}\<close>.
\<close>

definition demo_plantChar :: "char \<Rightarrow> planter \<Rightarrow> fault + planter" where
  "demo_plantChar ch st =
     (case st of (program, indexes) \<Rightarrow>
       (let opcodeIndex = OperatorToOpCodeIndex ch in
        if opcodeIndex > numberOfOpCodes then Inr (program, indexes)
        else
          (let program = program @ [Opcode (demo_opcode_map ! opcodeIndex)] in
           if ch = CHR ''['' then
             Inr (program @ [NullOpcode], indexes @ [length program])
           else if ch = CHR '']'' then
             (if indexes = [] then Inl StackEmpty
              else
                (let end' = length program;
                     start = last indexes;
                     indexes = butlast indexes;
                     program = program[start := Operand (end' + 1)]
                 in Inr (program @ [Operand (start + 1)], indexes)))
           else Inr (program, indexes))))"

fun demo_plantChars :: "string \<Rightarrow> planter \<Rightarrow> fault + planter" where
  "demo_plantChars [] st = Inr st"
| "demo_plantChars (ch # rest) st =
     (case demo_plantChar ch st of
        Inl f \<Rightarrow> Inl f
      | Inr st' \<Rightarrow> demo_plantChars rest st')"

definition demo_plantProgram :: "string \<Rightarrow> Instruction list \<Rightarrow> fault + planter" where
  "demo_plantProgram src program =
     (case demo_plantChars src (program, []) of
        Inl f \<Rightarrow> Inl f
      | Inr (program', indexes) \<Rightarrow>
          Inr (program' @ [Opcode (demo_opcode_map ! OperatorToOpCodeIndex (CHR 0x00))], indexes))"

section \<open>Engine\<close>

text \<open>
  \<open>class Engine\<close>: the program vector and the memory of 30000 cells (the table
  \<open>opcode_map\<close> is the constant above). The constructor leaves \<open>program\<close> empty and
  value-initialises \<open>memory\<close>.
\<close>

record Engine =
  program :: "Instruction list"
  memory :: "num list"

definition Engine_new :: Engine where
  "Engine_new = \<lparr>program = [], memory = replicate 30000 0\<rparr>"

text \<open>
  The state of one run: the locals \<open>pc\<close> (an index into the program vector) and \<open>loc\<close>
  (an offset into \<open>memory\<close>; it is a raw pointer and may leave the vector), the
  engine's memory as \<open>tape\<close>, the bytes not yet read from \<open>std::cin\<close>, and the bytes
  written to \<open>outStream\<close> so far.
\<close>

record Machine =
  pc :: nat
  loc :: int
  tape :: "num list"
  cin :: "num list"
  cout :: "num list"

datatype step_result = Next Machine | Done Machine | Crash fault

definition in_tape :: "Machine \<Rightarrow> bool" where
  "in_tape m = (0 \<le> loc m \<and> loc m < int (length (tape m)))"

definition peek :: "Machine \<Rightarrow> num" where
  "peek m = tape m ! nat (loc m)"

definition poke :: "Machine \<Rightarrow> num \<Rightarrow> Machine" where
  "poke m v = m\<lparr>tape := (tape m)[nat (loc m) := v]\<rparr>"

text \<open>\<open>int n = pc++->operand; if (jump) pc = &program_data[n];\<close>\<close>

definition branch :: "Instruction list \<Rightarrow> Machine \<Rightarrow> (num \<Rightarrow> bool) \<Rightarrow> step_result" where
  "branch prog m jump =
     (if length prog \<le> pc m then Crash ProgramOutOfRange
      else case prog ! pc m of
        Operand n \<Rightarrow>
          (if \<not> in_tape m then Crash TapeOutOfRange
           else if jump (peek m) then Next (m\<lparr>pc := n\<rparr>)
           else Next (m\<lparr>pc := pc m + 1\<rparr>))
      | _ \<Rightarrow> Crash NotAnOperand)"

text \<open>
  One turn of the dispatch loop \<open>while (true) { switch ((*pc++).opcode) { ... } }\<close> of
  \<open>switch_::Engine::runMacros\<close>. The label engines of ComputedGotos.cpp and main2.cpp
  (with and without lambdas, macros and \<open>__builtin_unreachable\<close>) run the same nine
  bodies, each followed by \<open>goto *(pc++->opcode)\<close>.
\<close>

definition step :: "Instruction list \<Rightarrow> Machine \<Rightarrow> step_result" where
  "step prog m =
     (if length prog \<le> pc m then Crash ProgramOutOfRange
      else case prog ! pc m of
        Opcode oc \<Rightarrow>
          (let m = m\<lparr>pc := pc m + 1\<rparr> in
           case oc of
             INCR \<Rightarrow> if in_tape m then Next (poke m (peek m + 1)) else Crash TapeOutOfRange
           | DECR \<Rightarrow> if in_tape m then Next (poke m (peek m - 1)) else Crash TapeOutOfRange
           | RIGHT \<Rightarrow> Next (m\<lparr>loc := loc m + 1\<rparr>)
           | LEFT \<Rightarrow> Next (m\<lparr>loc := loc m - 1\<rparr>)
           | PUT \<Rightarrow>
               if in_tape m then Next (m\<lparr>cout := cout m @ [peek m]\<rparr>)
               else Crash TapeOutOfRange
           | GET \<Rightarrow>
               (case cin m of
                  [] \<Rightarrow> Next m
                | ch # rest \<Rightarrow>
                    if in_tape m then Next (poke (m\<lparr>cin := rest\<rparr>) ch)
                    else Crash TapeOutOfRange)
           | OPEN \<Rightarrow> branch prog m (\<lambda>c. c = 0)
           | CLOSE \<Rightarrow> branch prog m (\<lambda>c. c \<noteq> 0)
           | HALT \<Rightarrow> Done m)
      | _ \<Rightarrow> Crash NotAnOpcode)"

text \<open>
  The dispatch loop has no bound of its own; \<open>run\<close> gives it fuel, and \<open>Timeout\<close> is the
  answer when the fuel is used up before HALT.
\<close>

datatype 'a result = Finished 'a | Crashed fault | Timeout

fun run :: "nat \<Rightarrow> Instruction list \<Rightarrow> Machine \<Rightarrow> Machine result" where
  "run 0 prog m = Timeout"
| "run (Suc n) prog m =
     (case step prog m of
        Next m' \<Rightarrow> run n prog m'
      | Done m' \<Rightarrow> Finished m'
      | Crash f \<Rightarrow> Crashed f)"

text \<open>
  The locals at the start of a run: \<open>pc = &program_data[0]\<close>, \<open>loc = &memory.data()[0]\<close>;
  the memory is the engine's, as the previous run left it.
\<close>

definition start :: "Engine \<Rightarrow> num list \<Rightarrow> Machine" where
  "start e inp = \<lparr>pc = 0, loc = 0, tape = memory e, cin = inp, cout = []\<rparr>"

text \<open>
  \<open>switch_::Engine::runMacros\<close> with \<open>header_needed = false\<close> (every caller in the
  repository passes \<open>false\<close>): plant the source onto the engine's program vector, then
  run from index 0. \<open>src\<close> is the content of the file, \<open>inp\<close> the bytes waiting on
  \<open>std::cin\<close>. The result is the engine after the run, the bytes written and the input
  left over.
\<close>

definition run_engine ::
  "Instruction \<Rightarrow> nat \<Rightarrow> string \<Rightarrow> Engine \<Rightarrow> num list \<Rightarrow> (Engine \<times> num list \<times> num list) result" where
  "run_engine dummy fuel src e inp =
     (case plantProgram dummy src (program e) of
        Inl f \<Rightarrow> Crashed f
      | Inr (prog, indexes) \<Rightarrow>
          (case run fuel prog (start (e\<lparr>program := prog\<rparr>) inp) of
             Finished m \<Rightarrow> Finished (\<lparr>program = prog, memory = tape m\<rparr>, cout m, cin m)
           | Crashed f \<Rightarrow> Crashed f
           | Timeout \<Rightarrow> Timeout))"

definition runMacros ::
  "nat \<Rightarrow> string \<Rightarrow> Engine \<Rightarrow> num list \<Rightarrow> (Engine \<times> num list \<times> num list) result" where
  "runMacros = run_engine switch_dummy"

definition runFile ::
  "nat \<Rightarrow> string \<Rightarrow> Engine \<Rightarrow> num list \<Rightarrow> (Engine \<times> num list \<times> num list) result" where
  "runFile = run_engine label_dummy"

section \<open>The engine of direct\_threading\_demo.cpp\<close>

text \<open>
  The nine labels of \<open>Engine::runFile\<close> in the demonstration file, each body followed by
  \<open>goto *(pc++->opcode)\<close>. Two things differ from the other engines: RIGHT and LEFT call
  \<open>std::next(loc)\<close> and \<open>std::prev(loc)\<close> and drop the result, so \<open>loc\<close> stays where it
  is; and CLOSE tests \<open>*loc == 0\<close>, as OPEN does.
\<close>

definition demo_step :: "Instruction list \<Rightarrow> Machine \<Rightarrow> step_result" where
  "demo_step prog m =
     (if length prog \<le> pc m then Crash ProgramOutOfRange
      else case prog ! pc m of
        Opcode oc \<Rightarrow>
          (let m = m\<lparr>pc := pc m + 1\<rparr> in
           case oc of
             INCR \<Rightarrow> if in_tape m then Next (poke m (peek m + 1)) else Crash TapeOutOfRange
           | DECR \<Rightarrow> if in_tape m then Next (poke m (peek m - 1)) else Crash TapeOutOfRange
           | RIGHT \<Rightarrow> Next m
           | LEFT \<Rightarrow> Next m
           | PUT \<Rightarrow>
               if in_tape m then Next (m\<lparr>cout := cout m @ [peek m]\<rparr>)
               else Crash TapeOutOfRange
           | GET \<Rightarrow>
               (case cin m of
                  [] \<Rightarrow> Next m
                | ch # rest \<Rightarrow>
                    if in_tape m then Next (poke (m\<lparr>cin := rest\<rparr>) ch)
                    else Crash TapeOutOfRange)
           | OPEN \<Rightarrow> branch prog m (\<lambda>c. c = 0)
           | CLOSE \<Rightarrow> branch prog m (\<lambda>c. c = 0)
           | HALT \<Rightarrow> Done m)
      | _ \<Rightarrow> Crash NotAnOpcode)"

fun demo_run :: "nat \<Rightarrow> Instruction list \<Rightarrow> Machine \<Rightarrow> Machine result" where
  "demo_run 0 prog m = Timeout"
| "demo_run (Suc n) prog m =
     (case demo_step prog m of
        Next m' \<Rightarrow> demo_run n prog m'
      | Done m' \<Rightarrow> Finished m'
      | Crash f \<Rightarrow> Crashed f)"

text \<open>
  \<open>Engine::runFile\<close> of the demonstration file (the header line goes to \<open>std::cerr\<close> and
  is left out); the bytes written go to \<open>std::cout\<close>.
\<close>

definition demo_runFile ::
  "nat \<Rightarrow> string \<Rightarrow> Engine \<Rightarrow> num list \<Rightarrow> (Engine \<times> num list \<times> num list) result" where
  "demo_runFile fuel src e inp =
     (case demo_plantProgram src (program e) of
        Inl f \<Rightarrow> Crashed f
      | Inr (prog, indexes) \<Rightarrow>
          (case demo_run fuel prog (start (e\<lparr>program := prog\<rparr>) inp) of
             Finished m \<Rightarrow> Finished (\<lparr>program = prog, memory = tape m\<rparr>, cout m, cin m)
           | Crashed f \<Rightarrow> Crashed f
           | Timeout \<Rightarrow> Timeout))"

section \<open>Notions of the specification\<close>

text \<open>
  The slots one character of the source adds to the program vector, read off
  \<open>plantChar\<close>: \<open>emit\<close> is what a character other than a bracket appends, \<open>width\<close> the
  number of slots of any character (a bracket takes two, its operation code and its operand).
  \<open>slots s\<close> is then the length of the code planted for \<open>s\<close>, that is the index in the
  instruction sequence of whatever is planted next.
\<close>

definition emit :: "char \<Rightarrow> Instruction list" where
  "emit ch = (case opcode_map ch of None \<Rightarrow> [] | Some oc \<Rightarrow> [Opcode oc])"

definition width :: "char \<Rightarrow> nat" where
  "width ch =
     (case opcode_map ch of
        None \<Rightarrow> 0
      | Some oc \<Rightarrow> if ch = CHR ''['' \<or> ch = CHR '']'' then 2 else 1)"

fun slots :: "string \<Rightarrow> nat" where
  "slots [] = 0"
| "slots (ch # rest) = width ch + slots rest"

text \<open>
  Bracket nesting by counting, independent of the planter: \<open>depth d s\<close> is the number of
  brackets still open after reading \<open>s\<close> at nesting depth \<open>d\<close>, and \<open>None\<close> when a
  \<open>]\<close> is met at depth 0. A source is balanced when it ends at depth 0.
\<close>

fun depth :: "nat \<Rightarrow> string \<Rightarrow> nat option" where
  "depth d [] = Some d"
| "depth d (ch # rest) =
     (if ch = CHR ''['' then depth (Suc d) rest
      else if ch = CHR '']'' then (case d of 0 \<Rightarrow> None | Suc d' \<Rightarrow> depth d' rest)
      else depth d rest)"

definition balanced :: "string \<Rightarrow> bool" where
  "balanced src = (depth 0 src = Some 0)"

text \<open>
  Instruction boundaries: the indexes of the instruction sequence at which some prefix
  of the source ends, that is where an operation code stands (or, for the whole source,
  the trailing HALT). The other indexes are the operand slots.
\<close>

definition boundaries :: "string \<Rightarrow> nat set" where
  "boundaries s = (\<lambda>k. slots (take k s)) ` {..length s}"

text \<open>
  What holds of the slot at index \<open>i\<close> once it is resolved: an operation code at a
  boundary, followed by the next boundary (two slots on for a bracket, whose operand slot
  is no boundary); an operand, itself a boundary, anywhere else.
\<close>

definition slot_ok :: "nat set \<Rightarrow> Instruction list \<Rightarrow> nat \<Rightarrow> bool" where
  "slot_ok B prog i =
     (if i \<in> B then
        (\<exists>oc. prog ! i = Opcode oc \<and>
           (if oc = OPEN \<or> oc = CLOSE then Suc i \<notin> B \<and> i + 2 \<in> B else Suc i \<in> B))
      else (\<exists>n. prog ! i = Operand n \<and> n \<in> B))"

text \<open>
  The invariant of the planter's loop after the prefix \<open>s\<close> of the source, planted
  onto an empty program: the indexes on the stack are distinct pending dummy slots, and
  every other slot is resolved.
\<close>

definition planted_ok :: "string \<Rightarrow> Instruction list \<Rightarrow> nat list \<Rightarrow> bool" where
  "planted_ok s prog idxs =
     (length prog = slots s \<and> distinct idxs \<and>
      (\<forall>y\<in>set idxs. y < length prog \<and> y \<notin> boundaries s \<and> Suc y \<in> boundaries s) \<and>
      (\<forall>i<length prog. i \<notin> set idxs \<longrightarrow> slot_ok (boundaries s) prog i))"

text \<open>
  A program whose boundaries \<open>B\<close> are closed under execution: \<open>pc\<close> starts on one, and
  from each of them the engine finds an operation code and moves to another, by falling
  through or by a jump to an operand that is a boundary.
\<close>

definition well_formed :: "nat set \<Rightarrow> Instruction list \<Rightarrow> bool" where
  "well_formed B prog =
     (0 \<in> B \<and>
      (\<forall>i\<in>B. i < length prog \<and>
         (\<exists>oc. prog ! i = Opcode oc \<and>
            (if oc = OPEN \<or> oc = CLOSE then
               Suc i < length prog \<and> (\<exists>n. prog ! Suc i = Operand n \<and> n \<in> B) \<and> i + 2 \<in> B
             else oc = HALT \<or> Suc i \<in> B))))"

text \<open>
  Two program vectors agree off the stack \<open>st\<close> when they have the same length and the
  same slots everywhere but at the pending dummies.
\<close>

definition agree :: "nat list \<Rightarrow> Instruction list \<Rightarrow> Instruction list \<Rightarrow> bool" where
  "agree st p q = (length q = length p \<and> (\<forall>i<length p. i \<notin> set st \<longrightarrow> q ! i = p ! i))"

text \<open>
  The indexes left on the loop-nesting stack are pending: in increasing order, each the
  index of a slot that still holds the dummy and stands right after a LoopOpen.
\<close>

definition pending :: "Instruction \<Rightarrow> Instruction list \<Rightarrow> nat list \<Rightarrow> bool" where
  "pending dummy p st =
     (sorted_wrt (<) st \<and>
      (\<forall>y\<in>set st. y < length p \<and> p ! y = dummy \<and> (\<exists>a. y = Suc a \<and> p ! a = Opcode OPEN)))"

text \<open>
  An instruction moved \<open>n\<close> slots up the program vector: operation codes stay, operands
  (absolute indexes) grow by \<open>n\<close>.
\<close>

fun relocate :: "nat \<Rightarrow> Instruction \<Rightarrow> Instruction" where
  "relocate n (Operand k) = Operand (k + n)"
| "relocate n (Opcode oc) = Opcode oc"
| "relocate n NullOpcode = NullOpcode"

section \<open>The planter, step by step\<close>

lemma opcode_map_open [simp]: "opcode_map CHR ''['' = Some OPEN"
  by (simp add: opcode_map_def)

lemma opcode_map_close [simp]: "opcode_map CHR '']'' = Some CLOSE"
  by (simp add: opcode_map_def)

lemma opcode_map_OPEN_iff: "opcode_map ch = Some OPEN \<longleftrightarrow> ch = CHR ''[''"
  by (auto simp: opcode_map_def split: if_splits)

lemma opcode_map_CLOSE_iff: "opcode_map ch = Some CLOSE \<longleftrightarrow> ch = CHR '']''"
  by (auto simp: opcode_map_def split: if_splits)

lemma plantChar_cases:
  "plantChar dummy ch (p, st) =
     (if ch = CHR ''['' then Inr (p @ [Opcode OPEN, dummy], st @ [Suc (length p)])
      else if ch = CHR '']'' then
        (if st = [] then Inl StackEmpty
         else Inr ((p @ [Opcode CLOSE])[last st := Operand (length p + 2)] @ [Operand (Suc (last st))],
                   butlast st))
      else Inr (p @ emit ch, st))"
  by (simp add: plantChar_def emit_def Let_def split: option.splits)

lemma plantChars_append:
  "plantChars dummy (xs @ ys) st =
     (case plantChars dummy xs st of Inl f \<Rightarrow> Inl f | Inr st' \<Rightarrow> plantChars dummy ys st')"
  by (induction xs arbitrary: st) (auto split: sum.splits)

lemma width_simps [simp]:
  "width CHR ''['' = 2" "width CHR '']'' = 2"
  "ch \<noteq> CHR ''['' \<Longrightarrow> ch \<noteq> CHR '']'' \<Longrightarrow> width ch = length (emit ch)"
  by (auto simp: width_def emit_def split: option.splits)

lemma slots_append [simp]: "slots (xs @ ys) = slots xs + slots ys"
  by (induction xs) auto

lemma plantChars_length:
  "plantChars dummy s (p, st) = Inr (p', st') \<Longrightarrow> length p' = length p + slots s"
  by (induction s arbitrary: p st)
     (auto simp: plantChar_cases split: if_splits)

lemma plantChars_Inr_depth:
  "plantChars dummy s (p, st) = Inr (p', st') \<Longrightarrow> depth (length st) s = Some (length st')"
proof (induction s arbitrary: p st)
  case Nil
  then show ?case by simp
next
  case (Cons ch rest)
  consider (opn) "ch = CHR ''[''" | (cls) "ch = CHR '']''" | (other) "ch \<noteq> CHR ''[''" "ch \<noteq> CHR '']''"
    by blast
  then show ?case
  proof cases
    case opn
    with Cons.prems
    have "plantChars dummy rest (p @ [Opcode OPEN, dummy], st @ [Suc (length p)]) = Inr (p', st')"
      by (simp add: plantChar_cases)
    from Cons.IH [OF this] opn show ?thesis by simp
  next
    case cls
    with Cons.prems have ne: "st \<noteq> []"
      by (auto simp: plantChar_cases split: if_splits)
    with cls Cons.prems
    have "plantChars dummy rest
            ((p @ [Opcode CLOSE])[last st := Operand (length p + 2)] @ [Operand (Suc (last st))],
             butlast st) = Inr (p', st')"
      by (simp add: plantChar_cases)
    from Cons.IH [OF this] cls ne show ?thesis
      by (cases st rule: rev_cases) auto
  next
    case other
    with Cons.prems have "plantChars dummy rest (p @ emit ch, st) = Inr (p', st')"
      by (simp add: plantChar_cases)
    from Cons.IH [OF this] other show ?thesis by simp
  qed
qed

lemma plantChars_Inl_depth:
  "plantChars dummy s (p, st) = Inl f \<Longrightarrow> f = StackEmpty \<and> depth (length st) s = None"
proof (induction s arbitrary: p st)
  case Nil
  then show ?case by simp
next
  case (Cons ch rest)
  consider (opn) "ch = CHR ''[''" | (cls) "ch = CHR '']''" | (other) "ch \<noteq> CHR ''[''" "ch \<noteq> CHR '']''"
    by blast
  then show ?case
  proof cases
    case opn
    with Cons.prems
    have "plantChars dummy rest (p @ [Opcode OPEN, dummy], st @ [Suc (length p)]) = Inl f"
      by (simp add: plantChar_cases)
    from Cons.IH [OF this] opn show ?thesis by simp
  next
    case cls
    show ?thesis
    proof (cases "st = []")
      case True
      with cls Cons.prems show ?thesis by (simp add: plantChar_cases)
    next
      case False
      with cls Cons.prems
      have "plantChars dummy rest
              ((p @ [Opcode CLOSE])[last st := Operand (length p + 2)] @ [Operand (Suc (last st))],
               butlast st) = Inl f"
        by (simp add: plantChar_cases)
      from Cons.IH [OF this] cls False show ?thesis
        by (cases st rule: rev_cases) auto
    qed
  next
    case other
    with Cons.prems have "plantChars dummy rest (p @ emit ch, st) = Inl f"
      by (simp add: plantChar_cases)
    from Cons.IH [OF this] other show ?thesis by simp
  qed
qed

section \<open>The engine, step by step\<close>

lemma run_numeral:
  "run (numeral k) prog m =
     (case step prog m of
        Next m' \<Rightarrow> run (pred_numeral k) prog m'
      | Done m' \<Rightarrow> Finished m'
      | Crash f \<Rightarrow> Crashed f)"
  by (simp add: numeral_eq_Suc)

lemmas engine_defs =
  runMacros_def runFile_def run_engine_def plantProgram_def plantChar_cases emit_def opcode_map_def
  switch_dummy_def label_dummy_def Engine_new_def start_def

lemmas machine_defs = step_def branch_def in_tape_def peek_def poke_def

lemma in_tape_nat: "in_tape m \<Longrightarrow> nat (loc m) < length (tape m)"
  unfolding in_tape_def by linarith

lemma num_256: "(256 :: num) = 0"
  by simp

lemma num_dec: "unat ((x::num) - 1) = (unat x + 255) mod 256"
proof -
  have "x - 1 = x + 255" by simp
  then have "unat (x - 1) = unat (x + 255)" by (rule arg_cong)
  also have "\<dots> = (unat x + unat (255 :: num)) mod 2 ^ LENGTH(8)"
    by (rule unat_word_ariths)
  finally show ?thesis by simp
qed

lemma step_INCR:
  "pc m < length prog \<Longrightarrow> prog ! pc m = Opcode INCR \<Longrightarrow> in_tape m \<Longrightarrow>
   step prog m = Next (m\<lparr>pc := Suc (pc m), tape := (tape m)[nat (loc m) := peek m + 1]\<rparr>)"
  by (simp add: machine_defs)

lemma step_DECR:
  "pc m < length prog \<Longrightarrow> prog ! pc m = Opcode DECR \<Longrightarrow> in_tape m \<Longrightarrow>
   step prog m = Next (m\<lparr>pc := Suc (pc m), tape := (tape m)[nat (loc m) := peek m - 1]\<rparr>)"
  by (simp add: machine_defs)

lemma step_PUT:
  "pc m < length prog \<Longrightarrow> prog ! pc m = Opcode PUT \<Longrightarrow> in_tape m \<Longrightarrow>
   step prog m = Next (m\<lparr>pc := Suc (pc m), cout := cout m @ [peek m]\<rparr>)"
  by (simp add: machine_defs)

lemma step_HALT:
  "pc m < length prog \<Longrightarrow> prog ! pc m = Opcode HALT \<Longrightarrow>
   step prog m = Done (m\<lparr>pc := Suc (pc m)\<rparr>)"
  by (simp add: machine_defs)

lemma step_GET_eof:
  "pc m < length prog \<Longrightarrow> prog ! pc m = Opcode GET \<Longrightarrow> cin m = [] \<Longrightarrow>
   step prog m = Next (m\<lparr>pc := Suc (pc m)\<rparr>)"
  by (simp add: machine_defs)

lemma step_GET_byte:
  "pc m < length prog \<Longrightarrow> prog ! pc m = Opcode GET \<Longrightarrow> cin m = b # rest \<Longrightarrow> in_tape m \<Longrightarrow>
   step prog m = Next (m\<lparr>pc := Suc (pc m), tape := (tape m)[nat (loc m) := b], cin := rest\<rparr>)"
  by (simp add: machine_defs)

lemma run_INCR_block:
  "\<forall>i<k. prog ! (pc m + i) = Opcode INCR \<Longrightarrow> pc m + k \<le> length prog \<Longrightarrow> in_tape m \<Longrightarrow>
   run (k + n) prog m =
   run n prog (m\<lparr>pc := pc m + k, tape := (tape m)[nat (loc m) := peek m + of_nat k]\<rparr>)"
proof (induction k arbitrary: m)
  case 0
  have "nat (loc m) < length (tape m)" using "0.prems" by (simp add: in_tape_nat)
  then show ?case by (simp add: peek_def)
next
  case (Suc k)
  let ?m1 = "m\<lparr>pc := Suc (pc m), tape := (tape m)[nat (loc m) := peek m + 1]\<rparr>"
  have lt: "nat (loc m) < length (tape m)" using Suc.prems by (simp add: in_tape_nat)
  have "prog ! (pc m + 0) = Opcode INCR" using Suc.prems(1) by blast
  then have s: "step prog m = Next ?m1"
    using Suc.prems by (simp add: step_INCR)
  have a: "\<forall>i<k. prog ! (pc ?m1 + i) = Opcode INCR"
  proof (intro allI impI)
    fix i assume "i < k"
    then have "Suc i < Suc k" by simp
    with Suc.prems(1) have "prog ! (pc m + Suc i) = Opcode INCR" by blast
    then show "prog ! (pc ?m1 + i) = Opcode INCR" by simp
  qed
  have b: "pc ?m1 + k \<le> length prog" using Suc.prems by simp
  have c: "in_tape ?m1" using Suc.prems by (simp add: in_tape_def)
  have "run (Suc k + n) prog m = run (k + n) prog ?m1" using s by simp
  also have "\<dots> = run n prog (?m1\<lparr>pc := pc ?m1 + k,
      tape := (tape ?m1)[nat (loc ?m1) := peek ?m1 + of_nat k]\<rparr>)"
    by (rule Suc.IH [OF a b c])
  also have "\<dots> = run n prog (m\<lparr>pc := pc m + Suc k,
      tape := (tape m)[nat (loc m) := peek m + of_nat (Suc k)]\<rparr>)"
    using lt by (simp add: peek_def add.assoc)
  finally show ?case .
qed

lemma plantChars_replicate_plus:
  "plantChars dummy (replicate n CHR ''+'') (p, st) = Inr (p @ replicate n (Opcode INCR), st)"
proof (induction n arbitrary: p)
  case 0
  then show ?case by simp
next
  case (Suc n)
  have "plantChar dummy CHR ''+'' (p, st) = Inr (p @ [Opcode INCR], st)"
    by (simp add: plantChar_cases emit_def opcode_map_def)
  then show ?case using Suc.IH [of "p @ [Opcode INCR]"]
    by (simp add: replicate_app_Cons_same)
qed

lemma plantProgram_plus_put:
  "plantProgram dummy (replicate n CHR ''+'' @ ''.'') [] =
     Inr (replicate n (Opcode INCR) @ [Opcode PUT, Opcode HALT], [])"
  by (simp add: plantProgram_def plantChars_append plantChars_replicate_plus
      plantChar_cases emit_def opcode_map_def)

lemma run_256_incr:
  "run (258 + k) (replicate 256 (Opcode INCR) @ [Opcode PUT, Opcode HALT])
      \<lparr>pc = 0, loc = 0, tape = replicate 30000 0, cin = inp, cout = []\<rparr>
   = Finished \<lparr>pc = 258, loc = 0, tape = replicate 30000 0, cin = inp, cout = [0]\<rparr>"
proof -
  let ?prog = "replicate 256 (Opcode INCR) @ [Opcode PUT, Opcode HALT]"
  let ?m = "\<lparr>pc = 0, loc = 0, tape = replicate 30000 (0::num), cin = inp, cout = []\<rparr>"
  have a: "\<forall>i<256. ?prog ! (pc ?m + i) = Opcode INCR" by (simp add: nth_append)
  have b: "pc ?m + 256 \<le> length ?prog" by simp
  have c: "in_tape ?m" by (simp add: in_tape_def)
  have "run (256 + (2 + k)) ?prog ?m =
        run (2 + k) ?prog (?m\<lparr>pc := pc ?m + 256, tape := (tape ?m)[nat (loc ?m) := peek ?m + of_nat 256]\<rparr>)"
    by (rule run_INCR_block [OF a b c])
  moreover have "(replicate 30000 (0::num))[0 := 0] = replicate 30000 0"
    by (simp add: list_update_same_conv)
  ultimately have "run (258 + k) ?prog ?m =
        run (Suc (Suc k)) ?prog \<lparr>pc = 256, loc = 0, tape = replicate 30000 0, cin = inp, cout = []\<rparr>"
    by (simp add: peek_def add.commute num_256)
  then show ?thesis
    by (simp add: machine_defs nth_append)
qed

lemma plantChar_skip: "opcode_map ch = None \<Longrightarrow> plantChar dummy ch st = Inr st"
  by (cases st) (simp add: plantChar_def)

lemma plantChars_filter:
  "plantChars dummy (filter (\<lambda>ch. opcode_map ch \<noteq> None) s) st = plantChars dummy s st"
  by (induction s arbitrary: st) (auto simp: plantChar_skip split: sum.splits)

lemma plantChars_skip_all:
  "\<forall>ch\<in>set s. opcode_map ch = None \<Longrightarrow> plantChars dummy s st = Inr st"
  by (induction s) (auto simp: plantChar_skip)

subsection \<open>C8: cells are bytes that wrap around\<close>

text \<open>
  C8. A cell is an \<open>unsigned char\<close>: INCR stores the cell plus one and DECR the cell minus
  one, both modulo 256, and touch nothing else but \<open>pc\<close>. The source of 256 \<open>+\<close> and one
  \<open>.\<close>, run by \<open>switch_::Engine::runMacros\<close> on a new engine with any input and fuel
  for its 258 instructions, writes the single byte 0.
\<close>

theorem cell_wraparound:
  assumes "pc m < length prog" and "in_tape m"
  shows "(prog ! pc m = Opcode INCR \<longrightarrow>
            step prog m = Next (m\<lparr>pc := Suc (pc m), tape := (tape m)[nat (loc m) := peek m + 1]\<rparr>)
            \<and> unat (peek m + 1) = (unat (peek m) + 1) mod 256)
       \<and> (prog ! pc m = Opcode DECR \<longrightarrow>
            step prog m = Next (m\<lparr>pc := Suc (pc m), tape := (tape m)[nat (loc m) := peek m - 1]\<rparr>)
            \<and> unat (peek m - 1) = (unat (peek m) + 255) mod 256)
       \<and> (\<exists>e. runMacros (258 + k) (replicate 256 CHR ''+'' @ ''.'') Engine_new inp
                 = Finished (e, [0], inp))"
proof (intro conjI impI)
  assume "prog ! pc m = Opcode INCR"
  with assms show "step prog m = Next (m\<lparr>pc := Suc (pc m), tape := (tape m)[nat (loc m) := peek m + 1]\<rparr>)"
    by (simp add: step_INCR)
next
  show "unat (peek m + 1) = (unat (peek m) + 1) mod 256"
    by (simp add: unat_word_ariths)
next
  assume "prog ! pc m = Opcode DECR"
  with assms show "step prog m = Next (m\<lparr>pc := Suc (pc m), tape := (tape m)[nat (loc m) := peek m - 1]\<rparr>)"
    by (simp add: step_DECR)
next
  show "unat (peek m - 1) = (unat (peek m) + 255) mod 256"
    by (rule num_dec)
next
  show "\<exists>e. runMacros (258 + k) (replicate 256 CHR ''+'' @ ''.'') Engine_new inp
                 = Finished (e, [0], inp)"
    by (simp add: runMacros_def run_engine_def plantProgram_plus_put Engine_new_def start_def
        run_256_incr)
qed

theorem cell_wraparound_witness:
  "step [Opcode INCR, Opcode HALT] \<lparr>pc = 0, loc = 0, tape = [255], cin = [], cout = []\<rparr>
     = Next \<lparr>pc = 1, loc = 0, tape = [0], cin = [], cout = []\<rparr>
   \<and> (\<exists>e. runMacros 258 (replicate 256 CHR ''+'' @ ''.'') Engine_new [] = Finished (e, [0], []))"
  using cell_wraparound [of "\<lparr>pc = 0, loc = 0, tape = [255], cin = [], cout = []\<rparr>"
      "[Opcode INCR, Opcode HALT]" 0 "[]"]
  by (simp add: in_tape_def peek_def)

subsection \<open>C6: Input\<close>

text \<open>
  C6. GET takes one byte from \<open>std::cin\<close> and stores it in the current cell; when the
  input is exhausted the cell, and everything else but \<open>pc\<close>, stays as it was. The source
  \<open>,.\<close> on a new engine with empty input therefore writes the byte 0 and leaves the
  memory all zero (with the switch engine and with the label engine alike); with the
  input byte 0x41 it writes 0x41.
\<close>

theorem input_semantics:
  assumes "pc m < length prog" and "prog ! pc m = Opcode GET"
  shows "(cin m = [] \<longrightarrow> step prog m = Next (m\<lparr>pc := Suc (pc m)\<rparr>))
       \<and> (\<forall>b rest. cin m = b # rest \<and> in_tape m \<longrightarrow>
            step prog m =
              Next (m\<lparr>pc := Suc (pc m), tape := (tape m)[nat (loc m) := b], cin := rest\<rparr>))
       \<and> runMacros (3 + k) '',.'' Engine_new [] =
           Finished (\<lparr>program = [Opcode GET, Opcode PUT, Opcode HALT],
                       memory = replicate 30000 0\<rparr>, [0], [])
       \<and> runFile (3 + k) '',.'' Engine_new [] =
           Finished (\<lparr>program = [Opcode GET, Opcode PUT, Opcode HALT],
                       memory = replicate 30000 0\<rparr>, [0], [])
       \<and> runMacros (3 + k) '',.'' Engine_new [0x41] =
           Finished (\<lparr>program = [Opcode GET, Opcode PUT, Opcode HALT],
                       memory = (replicate 30000 0)[0 := 0x41]\<rparr>, [0x41], [])"
proof (intro conjI impI allI)
  assume "cin m = []"
  with assms show "step prog m = Next (m\<lparr>pc := Suc (pc m)\<rparr>)"
    by (simp add: step_GET_eof)
next
  fix b rest
  assume "cin m = b # rest \<and> in_tape m"
  with assms show "step prog m =
      Next (m\<lparr>pc := Suc (pc m), tape := (tape m)[nat (loc m) := b], cin := rest\<rparr>)"
    by (simp add: step_GET_byte)
next
  have three: "3 + k = Suc (Suc (Suc k))" by simp
  show "runMacros (3 + k) '',.'' Engine_new [] =
           Finished (\<lparr>program = [Opcode GET, Opcode PUT, Opcode HALT],
                       memory = replicate 30000 0\<rparr>, [0], [])"
    unfolding three by (simp add: engine_defs machine_defs)
  show "runFile (3 + k) '',.'' Engine_new [] =
           Finished (\<lparr>program = [Opcode GET, Opcode PUT, Opcode HALT],
                       memory = replicate 30000 0\<rparr>, [0], [])"
    unfolding three by (simp add: engine_defs machine_defs)
  show "runMacros (3 + k) '',.'' Engine_new [0x41] =
           Finished (\<lparr>program = [Opcode GET, Opcode PUT, Opcode HALT],
                       memory = (replicate 30000 0)[0 := 0x41]\<rparr>, [0x41], [])"
    unfolding three by (simp add: engine_defs machine_defs)
qed

theorem input_semantics_witness:
  "step [Opcode GET, Opcode HALT] \<lparr>pc = 0, loc = 0, tape = [7], cin = [], cout = []\<rparr>
     = Next \<lparr>pc = 1, loc = 0, tape = [7], cin = [], cout = []\<rparr>
   \<and> runMacros 3 '',.'' Engine_new [] =
       Finished (\<lparr>program = [Opcode GET, Opcode PUT, Opcode HALT],
                   memory = replicate 30000 0\<rparr>, [0], [])"
  using input_semantics [of "\<lparr>pc = 0, loc = 0, tape = [7], cin = [], cout = []\<rparr>"
      "[Opcode GET, Opcode HALT]" 0]
  by simp

subsection \<open>C7: characters that are not instructions\<close>

text \<open>
  C7, as amended. A character that is not a key of \<open>opcode_map\<close> (the eight instruction
  symbols and the NUL character) is skipped: the planted program is that of the source
  with those characters removed. A source made only of such characters is planted as the
  single HALT, and running it on a new engine writes nothing, reads nothing and leaves
  the memory all zero.
\<close>

theorem comments_skipped:
  "plantProgram dummy src base =
     plantProgram dummy (filter (\<lambda>ch. opcode_map ch \<noteq> None) src) base
   \<and> ((\<forall>ch\<in>set src. opcode_map ch = None) \<longrightarrow>
        plantProgram dummy src [] = Inr ([Opcode HALT], [])
        \<and> run_engine dummy (Suc n) src Engine_new inp =
            Finished (\<lparr>program = [Opcode HALT], memory = replicate 30000 0\<rparr>, [], inp))"
proof (intro conjI impI)
  show "plantProgram dummy src base =
     plantProgram dummy (filter (\<lambda>ch. opcode_map ch \<noteq> None) src) base"
    by (simp only: plantProgram_def plantChars_filter)
next
  assume skip: "\<forall>ch\<in>set src. opcode_map ch = None"
  then show p: "plantProgram dummy src [] = Inr ([Opcode HALT], [])"
    by (simp add: plantProgram_def plantChars_skip_all)
  show "run_engine dummy (Suc n) src Engine_new inp =
            Finished (\<lparr>program = [Opcode HALT], memory = replicate 30000 0\<rparr>, [], inp)"
    by (simp add: run_engine_def Engine_new_def p start_def step_def)
qed

theorem comments_skipped_witness:
  "plantProgram switch_dummy ''hello world'' [] = Inr ([Opcode HALT], [])
   \<and> runMacros 1 ''hello world'' Engine_new [] =
       Finished (\<lparr>program = [Opcode HALT], memory = replicate 30000 0\<rparr>, [], [])"
proof -
  have h: "\<forall>ch\<in>set ''hello world''. opcode_map ch = None"
    by (simp add: opcode_map_def)
  from comments_skipped [of switch_dummy "''hello world''" "[]" 0 "[]", THEN conjunct2, THEN mp, OF h]
  show ?thesis by (simp add: runMacros_def)
qed

text \<open>
  C7 as stated fails for the NUL character: it is outside the eight-symbol alphabet, but
  it is a key of \<open>opcode_map\<close>, so \<open>plantChar\<close> plants a HALT for it. The source of one NUL
  is planted as two HALTs, and a NUL between \<open>+\<close> and \<open>.\<close> changes the program.
\<close>

theorem nul_character_counterexample:
  "CHR 0x00 \<notin> set ''+-<>[].,''
   \<and> plantProgram switch_dummy [CHR 0x00] [] = Inr ([Opcode HALT, Opcode HALT], [])
   \<and> plantProgram switch_dummy [CHR ''+'', CHR 0x00, CHR ''.''] [] =
       Inr ([Opcode INCR, Opcode HALT, Opcode PUT, Opcode HALT], [])
   \<and> plantProgram switch_dummy [CHR ''+'', CHR ''.''] [] =
       Inr ([Opcode INCR, Opcode PUT, Opcode HALT], [])"
  by (simp add: plantProgram_def plantChar_cases emit_def opcode_map_def)

section \<open>Planting as an induction\<close>

text \<open>
  Every successful run of the planter's loop is built from four kinds of steps: the end
  of the source, a \<open>[\<close>, a \<open>]\<close> on a non-empty stack, and any other character.
\<close>

lemma plantChars_induct [consumes 1, case_names Nil Open Close Other]:
  assumes planted: "plantChars dummy s (p, st) = Inr (p', st')"
    and nil: "\<And>p st. P [] p st p st"
    and opn: "\<And>rest p st p' st'.
        plantChars dummy rest (p @ [Opcode OPEN, dummy], st @ [Suc (length p)]) = Inr (p', st') \<Longrightarrow>
        P rest (p @ [Opcode OPEN, dummy]) (st @ [Suc (length p)]) p' st' \<Longrightarrow>
        P (CHR ''['' # rest) p st p' st'"
    and cls: "\<And>rest p st p' st'.
        st \<noteq> [] \<Longrightarrow>
        plantChars dummy rest
          ((p @ [Opcode CLOSE])[last st := Operand (length p + 2)] @ [Operand (Suc (last st))],
           butlast st) = Inr (p', st') \<Longrightarrow>
        P rest ((p @ [Opcode CLOSE])[last st := Operand (length p + 2)] @ [Operand (Suc (last st))])
          (butlast st) p' st' \<Longrightarrow>
        P (CHR '']'' # rest) p st p' st'"
    and other: "\<And>ch rest p st p' st'.
        ch \<noteq> CHR ''['' \<Longrightarrow> ch \<noteq> CHR '']'' \<Longrightarrow>
        plantChars dummy rest (p @ emit ch, st) = Inr (p', st') \<Longrightarrow>
        P rest (p @ emit ch) st p' st' \<Longrightarrow>
        P (ch # rest) p st p' st'"
  shows "P s p st p' st'"
  using planted
proof (induction s arbitrary: p st)
  case Nil
  then show ?case by (simp add: nil)
next
  case (Cons ch rest)
  consider (o) "ch = CHR ''[''" | (c) "ch = CHR '']''" | (x) "ch \<noteq> CHR ''[''" "ch \<noteq> CHR '']''"
    by blast
  then show ?case
  proof cases
    case o
    with Cons.prems
    have *: "plantChars dummy rest (p @ [Opcode OPEN, dummy], st @ [Suc (length p)]) = Inr (p', st')"
      by (simp add: plantChar_cases)
    from opn [OF * Cons.IH [OF *]] o show ?thesis by simp
  next
    case c
    with Cons.prems have ne: "st \<noteq> []"
      by (auto simp: plantChar_cases split: if_splits)
    with c Cons.prems
    have *: "plantChars dummy rest
            ((p @ [Opcode CLOSE])[last st := Operand (length p + 2)] @ [Operand (Suc (last st))],
             butlast st) = Inr (p', st')"
      by (simp add: plantChar_cases)
    from cls [OF ne * Cons.IH [OF *]] c show ?thesis by simp
  next
    case x
    with Cons.prems have *: "plantChars dummy rest (p @ emit ch, st) = Inr (p', st')"
      by (simp add: plantChar_cases)
    from other [OF x * Cons.IH [OF *]] show ?thesis .
  qed
qed

lemma plantChars_indexes_bound:
  assumes "plantChars dummy s (p, st) = Inr (p', st')" and "\<forall>y\<in>set st. y < length p"
  shows "\<forall>y\<in>set st'. y < length p'"
  using assms
proof (induction rule: plantChars_induct)
  case (Nil p st)
  then show ?case by simp
next
  case (Open rest p st p' st')
  then show ?case by (auto simp: less_Suc_eq)
next
  case (Close rest p st p' st')
  have "\<forall>y\<in>set (butlast st). y < length p" using Close.prems by (auto dest: in_set_butlastD)
  then show ?case using Close.IH by (auto simp: less_Suc_eq)
next
  case (Other ch rest p st p' st')
  have "\<forall>y\<in>set st. y < length (p @ emit ch)" using Other.prems by auto
  then show ?case by (rule Other.IH)
qed

lemma plantChars_frame:
  assumes "plantChars dummy s (p, st) = Inr (p', st')" and "q < length p" and "q \<notin> set st"
  shows "p' ! q = p ! q"
  using assms
proof (induction rule: plantChars_induct)
  case (Nil p st)
  then show ?case by simp
next
  case (Open rest p st p' st')
  then show ?case by (simp add: nth_append)
next
  case (Close rest p st p' st')
  from Close.hyps(1) have "last st \<in> set st" by simp
  with Close.prems have ne: "q \<noteq> last st" by blast
  have "q \<notin> set (butlast st)" using Close.prems by (auto dest: in_set_butlastD)
  with Close.IH Close.prems ne show ?case by (simp add: nth_append)
next
  case (Other ch rest p st p' st')
  then show ?case by (simp add: nth_append)
qed

lemma plantChars_extends:
  assumes "plantChars dummy s (p, []) = Inr (p', st')"
  shows "\<exists>ext. p' = p @ ext"
proof -
  have len: "length p \<le> length p'"
    using plantChars_length [OF assms] by simp
  have "take (length p) p' = p"
  proof (rule nth_equalityI)
    show "length (take (length p) p') = length p" using len by simp
  next
    fix i assume "i < length (take (length p) p')"
    then have i: "i < length p" by simp
    with plantChars_frame [OF assms, of i] show "take (length p) p' ! i = p ! i" by simp
  qed
  then have "p' = p @ drop (length p) p'"
    by (metis append_take_drop_id)
  then show ?thesis ..
qed

subsection \<open>C3: what the planter does with unbalanced brackets\<close>

lemma pending_open:
  assumes "pending dummy p st"
  shows "pending dummy (p @ [Opcode OPEN, dummy]) (st @ [Suc (length p)])"
proof -
  from assms have s: "sorted_wrt (<) st"
    and e: "\<forall>y\<in>set st. y < length p \<and> p ! y = dummy \<and> (\<exists>a. y = Suc a \<and> p ! a = Opcode OPEN)"
    by (simp_all add: pending_def)
  have "sorted_wrt (<) (st @ [Suc (length p)])"
    using s e by (auto simp: sorted_wrt_append)
  moreover have "\<forall>y\<in>set (st @ [Suc (length p)]). y < length (p @ [Opcode OPEN, dummy])
      \<and> (p @ [Opcode OPEN, dummy]) ! y = dummy
      \<and> (\<exists>a. y = Suc a \<and> (p @ [Opcode OPEN, dummy]) ! a = Opcode OPEN)"
  proof
    fix y assume "y \<in> set (st @ [Suc (length p)])"
    then consider "y \<in> set st" | "y = Suc (length p)" by auto
    then show "y < length (p @ [Opcode OPEN, dummy])
      \<and> (p @ [Opcode OPEN, dummy]) ! y = dummy
      \<and> (\<exists>a. y = Suc a \<and> (p @ [Opcode OPEN, dummy]) ! a = Opcode OPEN)"
    proof cases
      case 1
      with e obtain a where "y < length p" "p ! y = dummy" "y = Suc a" "p ! a = Opcode OPEN"
        by blast
      then show ?thesis by (simp add: nth_append)
    next
      case 2
      then show ?thesis by (simp add: nth_append)
    qed
  qed
  ultimately show ?thesis by (simp only: pending_def)
qed

lemma pending_close:
  assumes "pending dummy p st" and ne: "st \<noteq> []"
  shows "pending dummy
           ((p @ [Opcode CLOSE])[last st := Operand (length p + 2)] @ [Operand (Suc (last st))])
           (butlast st)"
proof -
  let ?p' = "(p @ [Opcode CLOSE])[last st := Operand (length p + 2)] @ [Operand (Suc (last st))]"
  from assms have s: "sorted_wrt (<) st"
    and e: "\<forall>y\<in>set st. y < length p \<and> p ! y = dummy \<and> (\<exists>a. y = Suc a \<and> p ! a = Opcode OPEN)"
    by (simp_all add: pending_def)
  from s have "sorted_wrt (<) (butlast st @ [last st])"
    by (simp only: append_butlast_last_id [OF ne])
  then have s': "sorted_wrt (<) (butlast st)" and top: "\<forall>y\<in>set (butlast st). y < last st"
    by (simp_all add: sorted_wrt_append)
  have "\<forall>y\<in>set (butlast st). y < length ?p' \<and> ?p' ! y = dummy
      \<and> (\<exists>a. y = Suc a \<and> ?p' ! a = Opcode OPEN)"
  proof
    fix y assume y: "y \<in> set (butlast st)"
    then have "y \<in> set st" by (rule in_set_butlastD)
    with e obtain a where a: "y < length p" "p ! y = dummy" "y = Suc a" "p ! a = Opcode OPEN"
      by blast
    from top y have "y < last st" by blast
    with a show "y < length ?p' \<and> ?p' ! y = dummy \<and> (\<exists>a. y = Suc a \<and> ?p' ! a = Opcode OPEN)"
      by (simp add: nth_append)
  qed
  with s' show ?thesis by (simp only: pending_def)
qed

lemma pending_other:
  assumes "pending dummy p st"
  shows "pending dummy (p @ ext) st"
proof -
  from assms have s: "sorted_wrt (<) st"
    and e: "\<forall>y\<in>set st. y < length p \<and> p ! y = dummy \<and> (\<exists>a. y = Suc a \<and> p ! a = Opcode OPEN)"
    by (simp_all add: pending_def)
  have "\<forall>y\<in>set st. y < length (p @ ext) \<and> (p @ ext) ! y = dummy
      \<and> (\<exists>a. y = Suc a \<and> (p @ ext) ! a = Opcode OPEN)"
  proof
    fix y assume "y \<in> set st"
    with e obtain a where "y < length p" "p ! y = dummy" "y = Suc a" "p ! a = Opcode OPEN"
      by blast
    then show "y < length (p @ ext) \<and> (p @ ext) ! y = dummy
      \<and> (\<exists>a. y = Suc a \<and> (p @ ext) ! a = Opcode OPEN)"
      by (simp add: nth_append)
  qed
  with s show ?thesis by (simp only: pending_def)
qed

lemma pending_plantChars:
  assumes "plantChars dummy s (p, st) = Inr (p', st')"
  shows "pending dummy p st \<Longrightarrow> pending dummy p' st'"
  using assms
proof (induction rule: plantChars_induct)
  case (Nil p st)
  then show ?case .
next
  case (Open rest p st p' st')
  from Open.IH [OF pending_open [OF Open.prems]] show ?case .
next
  case (Close rest p st p' st')
  from Close.IH [OF pending_close [OF Close.prems Close.hyps(1)]] show ?case .
next
  case (Other ch rest p st p' st')
  from Other.IH [OF pending_other [OF Other.prems]] show ?case .
qed

lemma depth_plantChars:
  assumes "depth (length st) s = Some k"
  obtains p' st' where "plantChars dummy s (p, st) = Inr (p', st')" and "length st' = k"
proof (cases "plantChars dummy s (p, st)")
  case (Inl f)
  from plantChars_Inl_depth [OF Inl] assms show ?thesis by simp
next
  case (Inr r)
  obtain p' st' where r: "r = (p', st')" by (cases r)
  with Inr plantChars_Inr_depth [of dummy s p st p' st'] assms have "length st' = k" by simp
  with Inr r that show ?thesis by simp
qed

text \<open>
  C3, as amended. The planter reports no error: \<open>plantChar\<close> and \<open>plantProgram\<close> return
  nothing and test nothing. For every source in which no \<open>]\<close> is met at nesting depth 0
  (\<open>depth 0 src = Some k\<close>, with \<open>k\<close> brackets left open), planting onto any program vector
  runs to the end and appends HALT. The loop-nesting stack then holds \<open>k\<close> indexes; it is
  empty exactly when the source is balanced; and every index left on it is the operand
  slot of a LoopOpen and still holds the dummy. So a source with an unmatched \<open>[\<close> is
  planted without complaint into a partially resolved program. Nothing is said about a
  \<open>]\<close> met with an empty stack, where the source calls \<open>back()\<close> on an empty vector.
\<close>

theorem plantProgram_completes:
  assumes "depth 0 src = Some k"
  shows "\<exists>prog st. plantProgram dummy src base = Inr (prog, st)
           \<and> length st = k
           \<and> (st = [] \<longleftrightarrow> balanced src)
           \<and> last prog = Opcode HALT
           \<and> (\<forall>y\<in>set st. Suc y < length prog \<and> prog ! y = dummy
                 \<and> (\<exists>a. y = Suc a \<and> prog ! a = Opcode OPEN))"
proof -
  from assms have "depth (length ([]::nat list)) src = Some k" by simp
  then obtain p' st' where p: "plantChars dummy src (base, []) = Inr (p', st')"
    and len: "length st' = k"
    by (rule depth_plantChars)
  have "pending dummy base []" by (simp add: pending_def)
  from pending_plantChars [OF p this]
  have e: "\<forall>y\<in>set st'. y < length p' \<and> p' ! y = dummy \<and> (\<exists>a. y = Suc a \<and> p' ! a = Opcode OPEN)"
    by (simp add: pending_def)
  have "\<forall>y\<in>set st'. Suc y < length (p' @ [Opcode HALT]) \<and> (p' @ [Opcode HALT]) ! y = dummy
           \<and> (\<exists>a. y = Suc a \<and> (p' @ [Opcode HALT]) ! a = Opcode OPEN)"
  proof
    fix y assume "y \<in> set st'"
    with e obtain a where "y < length p'" "p' ! y = dummy" "y = Suc a" "p' ! a = Opcode OPEN"
      by blast
    then show "Suc y < length (p' @ [Opcode HALT]) \<and> (p' @ [Opcode HALT]) ! y = dummy
           \<and> (\<exists>a. y = Suc a \<and> (p' @ [Opcode HALT]) ! a = Opcode OPEN)"
      by (simp add: nth_append)
  qed
  moreover have "plantProgram dummy src base = Inr (p' @ [Opcode HALT], st')"
    using p by (simp add: plantProgram_def)
  moreover have "(st' = []) \<longleftrightarrow> balanced src"
    using len assms by (auto simp: balanced_def)
  ultimately show ?thesis using len by auto
qed

theorem plantProgram_completes_witness:
  "depth 0 ''[+[-]'' = Some 1
   \<and> (\<exists>prog. plantProgram switch_dummy ''[+[-]'' [] = Inr (prog, [1])
        \<and> \<not> balanced ''[+[-]'' \<and> last prog = Opcode HALT
        \<and> prog ! 0 = Opcode OPEN \<and> prog ! 1 = switch_dummy)"
proof -
  have d: "depth 0 ''[+[-]'' = Some 1" by simp
  have p: "plantProgram switch_dummy ''[+[-]'' [] =
      Inr ([Opcode OPEN, Opcode HALT, Opcode INCR, Opcode OPEN, Operand 8, Opcode DECR,
            Opcode CLOSE, Operand 5, Opcode HALT], [1])"
    by (simp add: plantProgram_def plantChar_cases emit_def opcode_map_def switch_dummy_def)
  from plantProgram_completes [OF d, of switch_dummy "[]"] p d show ?thesis
    by (auto simp: switch_dummy_def)
qed

text \<open>
  C3 as stated fails: the source \<open>[\<close> is not balanced, yet \<open>switch_::CodePlanter\<close>
  plants it without any failure, and the program it leaves has the dummy \<open>{OpCode::HALT}\<close>
  where the operand of the LoopOpen should be, with index 1 still on the stack.
\<close>

theorem unmatched_open_counterexample:
  "\<not> balanced ''['' \<and>
   plantProgram switch_dummy ''['' [] = Inr ([Opcode OPEN, Opcode HALT, Opcode HALT], [1])"
  by (simp add: balanced_def plantProgram_def switch_dummy_def plantChar_cases)

section \<open>Longer programs, more fuel\<close>

lemma step_append_Next: "step prog m = Next m' \<Longrightarrow> step (prog @ ext) m = Next m'"
  by (auto simp: step_def branch_def nth_append Let_def
      split: if_splits Instruction.splits OpCode.splits list.splits)

lemma step_append_Done: "step prog m = Done m' \<Longrightarrow> step (prog @ ext) m = Done m'"
  by (auto simp: step_def branch_def nth_append Let_def
      split: if_splits Instruction.splits OpCode.splits list.splits)

lemma run_append:
  "run n prog m = Finished r \<Longrightarrow> run n (prog @ ext) m = Finished r"
proof (induction n arbitrary: m)
  case 0
  then show ?case by simp
next
  case (Suc n)
  then show ?case
    by (cases "step prog m") (auto simp: step_append_Next step_append_Done)
qed

lemma run_more_fuel:
  "run n prog m \<noteq> Timeout \<Longrightarrow> run (n + k) prog m = run n prog m"
proof (induction n arbitrary: m)
  case 0
  then show ?case by simp
next
  case (Suc n)
  then show ?case by (cases "step prog m") auto
qed

lemma run_deterministic:
  assumes "run n prog m = Finished r" and "run k prog m = Finished r'"
  shows "r = r'"
proof (cases "n \<le> k")
  case True
  then obtain d where "k = n + d" using le_Suc_ex by blast
  with run_more_fuel [of n prog m d] assms show ?thesis by simp
next
  case False
  then obtain d where "n = k + d" using le_Suc_ex [of k n] by auto
  with run_more_fuel [of k prog m d] assms show ?thesis by simp
qed

subsection \<open>C5: repeated executions\<close>

lemma replicate_update_same: "i < n \<Longrightarrow> (replicate n x)[i := x] = replicate n x"
  by (simp add: list_update_same_conv)

text \<open>
  C5, as amended. Let a run method, called with a source and an input on an engine \<open>e\<close>,
  reach HALT. Then every execution of the same source on the same input that starts from
  the same engine state (in particular on another newly constructed engine) and reaches
  HALT, however many steps it was allowed, writes the same bytes, leaves the same memory
  and the same unread input. And if the execution left the memory as it found it, then
  the repeated execution on the very same engine, although it plants the source once more
  behind the program already there, reaches HALT as well and again writes the same bytes
  and leaves the same memory. The outcome is a function of the program vector, the input
  and the memory at the start, not of the program and the input alone.
\<close>

theorem repeated_execution:
  assumes first: "run_engine dummy n src e inp = Finished (e1, out1, rest1)"
  shows "(\<forall>k e2 out2 rest2.
            run_engine dummy k src e inp = Finished (e2, out2, rest2) \<longrightarrow>
            out2 = out1 \<and> memory e2 = memory e1 \<and> rest2 = rest1)
       \<and> (memory e1 = memory e \<longrightarrow>
            (\<exists>e2. run_engine dummy n src e1 inp = Finished (e2, out1, rest1)
                \<and> memory e2 = memory e1))"
proof -
  from first obtain prog1 st1 m1
    where planted: "plantProgram dummy src (program e) = Inr (prog1, st1)"
      and run1: "run n prog1 (start e inp) = Finished m1"
      and e1: "e1 = \<lparr>program = prog1, memory = tape m1\<rparr>" "out1 = cout m1" "rest1 = cin m1"
    by (auto simp: run_engine_def start_def split: sum.splits result.splits)
  have same_state: "out2 = out1 \<and> memory e2 = memory e1 \<and> rest2 = rest1"
    if "run_engine dummy k src e inp = Finished (e2, out2, rest2)" for k e2 out2 rest2
  proof -
    from that planted obtain m2 where run2: "run k prog1 (start e inp) = Finished m2"
      and e2: "e2 = \<lparr>program = prog1, memory = tape m2\<rparr>" "out2 = cout m2" "rest2 = cin m2"
      by (auto simp: run_engine_def start_def split: result.splits)
    from run_deterministic [OF run1 run2] e1 e2 show ?thesis by simp
  qed
  have same_engine: "\<exists>e2. run_engine dummy n src e1 inp = Finished (e2, out1, rest1)
      \<and> memory e2 = memory e1" if restored: "memory e1 = memory e"
  proof -
    from planted obtain p1 where p1: "plantChars dummy src (program e, []) = Inr (p1, st1)"
      by (auto simp: plantProgram_def split: sum.splits)
    from plantChars_Inr_depth [OF p1]
    have "depth (length ([]::nat list)) src = Some (length st1)" by simp
    then obtain p2 st2 where p2: "plantChars dummy src (prog1, []) = Inr (p2, st2)"
      by (rule depth_plantChars)
    from plantChars_extends [OF p2] obtain ext where ext: "p2 = prog1 @ ext" ..
    from p2 ext e1
    have planted2: "plantProgram dummy src (program e1) = Inr (prog1 @ (ext @ [Opcode HALT]), st2)"
      by (simp add: plantProgram_def)
    from restored have "start e1 inp = start e inp" by (simp add: start_def)
    with run_append [OF run1, of "ext @ [Opcode HALT]"]
    have "run n (prog1 @ (ext @ [Opcode HALT])) (start e1 inp) = Finished m1" by simp
    with planted2 e1
    have "run_engine dummy n src e1 inp =
        Finished (\<lparr>program = prog1 @ (ext @ [Opcode HALT]), memory = tape m1\<rparr>, out1, rest1)"
      by (simp add: run_engine_def start_def)
    with e1 show ?thesis by simp
  qed
  from same_state same_engine show ?thesis by blast
qed

theorem repeated_execution_witness:
  "runMacros 4 ''+.-'' Engine_new [] =
     Finished (\<lparr>program = [Opcode INCR, Opcode PUT, Opcode DECR, Opcode HALT],
                 memory = replicate 30000 0\<rparr>, [1], [])
   \<and> (\<exists>e2. runMacros 4 ''+.-''
              \<lparr>program = [Opcode INCR, Opcode PUT, Opcode DECR, Opcode HALT],
                memory = replicate 30000 0\<rparr> [] = Finished (e2, [1], [])
         \<and> memory e2 = replicate 30000 0)"
proof -
  let ?e1 = "\<lparr>program = [Opcode INCR, Opcode PUT, Opcode DECR, Opcode HALT],
               memory = replicate 30000 (0::num)\<rparr>"
  have first: "run_engine switch_dummy 4 ''+.-'' Engine_new [] = Finished (?e1, [1], [])"
    by (simp add: engine_defs machine_defs run_numeral replicate_update_same)
  have restored: "memory ?e1 = memory Engine_new" by (simp add: Engine_new_def)
  from repeated_execution [OF first, THEN conjunct2, THEN mp, OF restored] first
  show ?thesis by (simp add: runMacros_def)
qed

text \<open>
  C5 as stated fails when the execution is repeated on the same engine: the source \<open>+.\<close>
  with no input writes the byte 1 on a new engine and leaves 1 in the first cell; the
  second execution on that engine writes the byte 2 and leaves 2.
\<close>

theorem repeated_execution_counterexample:
  "runMacros 3 ''+.'' Engine_new [] =
     Finished (\<lparr>program = [Opcode INCR, Opcode PUT, Opcode HALT],
                 memory = (replicate 30000 0)[0 := 1]\<rparr>, [1], [])
   \<and> runMacros 3 ''+.''
        \<lparr>program = [Opcode INCR, Opcode PUT, Opcode HALT],
          memory = (replicate 30000 0)[0 := 1]\<rparr> [] =
     Finished (\<lparr>program = [Opcode INCR, Opcode PUT, Opcode HALT,
                              Opcode INCR, Opcode PUT, Opcode HALT],
                 memory = (replicate 30000 0)[0 := 2]\<rparr>, [2], [])"
  by (simp add: engine_defs machine_defs run_numeral)

subsection \<open>C10: a second run on the same engine\<close>

text \<open>
  Planting onto a program vector that is not empty gives the code planted onto an empty
  one, moved up by the length of what was there: the operands are absolute indexes.
\<close>

lemma relocate_emit: "map (relocate n) (emit ch) = emit ch"
  by (simp add: emit_def split: option.splits)

lemma plantChars_relocate:
  assumes "plantChars dummy s (p, st) = Inr (p', st')" and d: "relocate (length b) dummy = dummy"
  shows "plantChars dummy s (b @ map (relocate (length b)) p, map (\<lambda>i. i + length b) st)
           = Inr (b @ map (relocate (length b)) p', map (\<lambda>i. i + length b) st')"
  using assms(1)
proof (induction rule: plantChars_induct)
  case (Nil p st)
  then show ?case by simp
next
  case (Open rest p st p' st')
  from Open.IH d show ?case by (simp add: plantChar_cases add.commute)
next
  case (Close rest p st p' st')
  let ?n = "length b"
  have "(b @ map (relocate ?n) (p @ [Opcode CLOSE]))[last st + ?n := Operand (length p + 2 + ?n)]
        = b @ (map (relocate ?n) (p @ [Opcode CLOSE]))[last st := relocate ?n (Operand (length p + 2))]"
    by (simp add: list_update_append)
  also have "\<dots> = b @ map (relocate ?n) ((p @ [Opcode CLOSE])[last st := Operand (length p + 2)])"
    by (simp only: map_update)
  finally have upd:
    "(b @ map (relocate ?n) p @ [Opcode CLOSE])[last st + ?n := Operand (Suc (Suc (length p + ?n)))]
        = b @ map (relocate ?n) ((p @ [Opcode CLOSE])[last st := Operand (length p + 2)])"
    by simp
  from Close.hyps(1) have l: "last (map (\<lambda>i. i + ?n) st) = last st + ?n"
    by (simp add: last_map)
  from Close.IH Close.hyps(1) upd l show ?case
    by (simp add: plantChar_cases map_butlast add.commute)
next
  case (Other ch rest p st p' st')
  from Other.IH Other.hyps(1,2) show ?case
    by (simp add: plantChar_cases relocate_emit)
qed

lemma plantProgram_relocate:
  assumes "plantProgram dummy src [] = Inr (code, st)" and "relocate (length b) dummy = dummy"
  shows "plantProgram dummy src b
           = Inr (b @ map (relocate (length b)) code, map (\<lambda>i. i + length b) st)"
proof -
  from assms(1) obtain p where p: "plantChars dummy src ([], []) = Inr (p, st)"
    and code: "code = p @ [Opcode HALT]"
    by (auto simp: plantProgram_def split: sum.splits)
  from plantChars_relocate [OF p assms(2)] code show ?thesis
    by (simp add: plantProgram_def)
qed

lemma plantProgram_on_empty:
  assumes "plantProgram dummy src b = Inr r"
  obtains code st where "plantProgram dummy src [] = Inr (code, st)"
proof -
  from assms obtain p st where p: "plantChars dummy src (b, []) = Inr (p, st)"
    by (auto simp: plantProgram_def split: sum.splits)
  from plantChars_Inr_depth [OF p] have "depth (length ([]::nat list)) src = Some (length st)"
    by simp
  then obtain p' st' where "plantChars dummy src ([], []) = Inr (p', st')"
    by (cases "plantChars dummy src ([], [])")
       (auto dest: plantChars_Inl_depth)
  then have "plantProgram dummy src [] = Inr (p' @ [Opcode HALT], st')"
    by (simp add: plantProgram_def)
  then show ?thesis by (rule that)
qed

text \<open>
  C10. Let a first call on a new engine plant \<open>src1\<close> and reach HALT, leaving the engine
  \<open>e1\<close>. Its program is the compiled \<open>src1\<close>. A second call with any source \<open>src2\<close>
  leaves that program in place and appends to it the whole code of \<open>src2\<close> (its
  \<open>slots src2\<close> slots and the HALT, as planted on an empty vector, with the operands raised
  by the length of the first program). It then starts again at index 0 on the memory the
  first run left: whenever the program of the first call, run from index 0 on that
  memory, reaches HALT, the second call does exactly that, and nothing of \<open>src2\<close> is
  executed. The dummy is that of Switch.cpp or that of the label engines.
\<close>

theorem second_run_repeats_first:
  assumes first: "run_engine dummy n1 src1 Engine_new inp = Finished (e1, out1, inp1)"
      and again: "run n2 (program e1)
                    \<lparr>pc = 0, loc = 0, tape = memory e1, cin = inp1, cout = []\<rparr> = Finished m2"
      and planted: "plantProgram dummy src2 (program e1) = Inr (prog2, st2)"
      and dummy: "dummy = switch_dummy \<or> dummy = label_dummy"
  shows "(\<exists>st1. plantProgram dummy src1 [] = Inr (program e1, st1))
       \<and> (\<exists>code2 st. plantProgram dummy src2 [] = Inr (code2, st)
            \<and> length code2 = Suc (slots src2)
            \<and> prog2 = program e1 @ map (relocate (length (program e1))) code2
            \<and> run_engine dummy n2 src2 e1 inp1 =
                Finished (\<lparr>program = program e1 @ map (relocate (length (program e1))) code2,
                            memory = tape m2\<rparr>, cout m2, cin m2))"
proof
  from first show "\<exists>st1. plantProgram dummy src1 [] = Inr (program e1, st1)"
    by (auto simp: run_engine_def Engine_new_def split: sum.splits result.splits)
next
  let ?b = "program e1"
  from dummy have d: "relocate (length ?b) dummy = dummy"
    by (auto simp: switch_dummy_def label_dummy_def)
  from planted obtain code2 st where c: "plantProgram dummy src2 [] = Inr (code2, st)"
    by (rule plantProgram_on_empty)
  from plantProgram_relocate [OF c d] planted
  have prog2: "prog2 = ?b @ map (relocate (length ?b)) code2" by simp
  from c obtain p where "plantChars dummy src2 ([], []) = Inr (p, st)" "code2 = p @ [Opcode HALT]"
    by (auto simp: plantProgram_def split: sum.splits)
  with plantChars_length [of dummy src2 "[]" "[]" p st]
  have len: "length code2 = Suc (slots src2)" by simp
  from run_append [OF again, of "map (relocate (length ?b)) code2"] prog2
  have "run n2 prog2 \<lparr>pc = 0, loc = 0, tape = memory e1, cin = inp1, cout = []\<rparr> = Finished m2"
    by simp
  with planted prog2
  have "run_engine dummy n2 src2 e1 inp1 =
          Finished (\<lparr>program = ?b @ map (relocate (length ?b)) code2, memory = tape m2\<rparr>,
                    cout m2, cin m2)"
    by (simp add: run_engine_def start_def)
  with c len prog2 show "\<exists>code2 st. plantProgram dummy src2 [] = Inr (code2, st)
            \<and> length code2 = Suc (slots src2)
            \<and> prog2 = ?b @ map (relocate (length ?b)) code2
            \<and> run_engine dummy n2 src2 e1 inp1 =
                Finished (\<lparr>program = ?b @ map (relocate (length ?b)) code2,
                            memory = tape m2\<rparr>, cout m2, cin m2)"
    by blast
qed

theorem second_run_repeats_first_witness:
  "runMacros 3 ''+.'' Engine_new [] =
     Finished (\<lparr>program = [Opcode INCR, Opcode PUT, Opcode HALT],
                 memory = (replicate 30000 0)[0 := 1]\<rparr>, [1], [])
   \<and> plantProgram switch_dummy ''[-].'' [] =
       Inr ([Opcode OPEN, Operand 5, Opcode DECR, Opcode CLOSE, Operand 2, Opcode PUT, Opcode HALT], [])
   \<and> runMacros 3 ''[-].''
        \<lparr>program = [Opcode INCR, Opcode PUT, Opcode HALT],
          memory = (replicate 30000 0)[0 := 1]\<rparr> [] =
      Finished (\<lparr>program = [Opcode INCR, Opcode PUT, Opcode HALT,
                               Opcode OPEN, Operand 8, Opcode DECR, Opcode CLOSE, Operand 5,
                               Opcode PUT, Opcode HALT],
                  memory = (replicate 30000 0)[0 := 2]\<rparr>, [2], [])"
proof -
  let ?p1 = "[Opcode INCR, Opcode PUT, Opcode HALT]"
  let ?e1 = "\<lparr>program = ?p1, memory = (replicate 30000 0)[0 := 1]\<rparr>"
  let ?m2 = "\<lparr>pc = 3, loc = 0, tape = (replicate 30000 0)[0 := 2], cin = [], cout = [2]\<rparr>"
  have first: "run_engine switch_dummy 3 ''+.'' Engine_new [] = Finished (?e1, [1], [])"
    by (simp add: engine_defs machine_defs run_numeral)
  have again: "run 3 (program ?e1)
      \<lparr>pc = 0, loc = 0, tape = memory ?e1, cin = [], cout = []\<rparr> = Finished ?m2"
    by (simp add: machine_defs run_numeral)
  have planted: "plantProgram switch_dummy ''[-].'' (program ?e1) =
      Inr (?p1 @ [Opcode OPEN, Operand 8, Opcode DECR, Opcode CLOSE, Operand 5, Opcode PUT,
                  Opcode HALT], [])"
    by (simp add: engine_defs)
  have alone: "plantProgram switch_dummy ''[-].'' [] =
       Inr ([Opcode OPEN, Operand 5, Opcode DECR, Opcode CLOSE, Operand 2, Opcode PUT, Opcode HALT], [])"
    by (simp add: engine_defs)
  from second_run_repeats_first [OF first again planted] first alone
  show ?thesis by (simp add: runMacros_def)
qed

section \<open>Loops\<close>

text \<open>
  Planting a balanced piece of source leaves the loop-nesting stack as it found it; more
  generally, what lies on the stack below the brackets opened by \<open>s\<close> itself stays.
\<close>

lemma plantChars_keeps_stack:
  assumes "plantChars dummy s (p, stk) = Inr (p', st')"
  shows "stk = st0 @ st \<Longrightarrow> depth (length st) s = Some k \<Longrightarrow>
         \<exists>new. st' = st0 @ new \<and> length new = k"
  using assms
proof (induction arbitrary: st k rule: plantChars_induct)
  case (Nil p stk)
  then show ?case by simp
next
  case (Open rest p stk p' st')
  from Open.prems have "stk @ [Suc (length p)] = st0 @ (st @ [Suc (length p)])"
    and "depth (length (st @ [Suc (length p)])) rest = Some k"
    by simp_all
  then show ?case by (rule Open.IH)
next
  case (Close rest p stk p' st')
  from Close.prems(2) have ne: "st \<noteq> []" by (auto split: nat.splits)
  with Close.prems have "butlast stk = st0 @ butlast st"
    and "depth (length (butlast st)) rest = Some k"
    by (auto simp: butlast_append split: nat.splits)
  then show ?case by (rule Close.IH)
next
  case (Other ch rest p stk p' st')
  from Other.prems Other.hyps have "stk = st0 @ st" and "depth (length st) rest = Some k"
    by simp_all
  then show ?case by (rule Other.IH)
qed

lemma plantChars_balanced_stack:
  assumes "plantChars dummy s (p, st) = Inr (p', st')" and "balanced s"
  shows "st' = st"
  using plantChars_keeps_stack [OF assms(1), of st "[]" 0] assms(2)
  by (simp add: balanced_def)

lemma plantChars_append_Inr:
  assumes "plantChars dummy (xs @ ys) st = Inr r"
  obtains mid where "plantChars dummy xs st = Inr mid" and "plantChars dummy ys mid = Inr r"
  using assms by (auto simp: plantChars_append split: sum.splits)

subsection \<open>C2: the operands of a loop\<close>

text \<open>
  C2, as amended. Take any source in which a \<open>[\<close> and a \<open>]\<close> enclose a balanced body
  (so the two brackets match), with any text \<open>u\<close> before and \<open>v\<close> after, planted onto any
  program vector \<open>base\<close>. The LoopOpen stands at index \<open>length base + slots u\<close> and the
  LoopClose at index \<open>length base + slots (u @ [ # body)\<close>. Then the operand of the
  LoopOpen is the index of the LoopClose plus 2 (the slot after the operand of the
  LoopClose), and the operand of the LoopClose is the index of the LoopOpen plus 2 (the
  slot after the operand of the LoopOpen, where the body starts). A single loop \<open>[X]\<close>
  without inner brackets is the case of empty \<open>u\<close>, \<open>v\<close> and \<open>base\<close>.
\<close>

theorem loop_operands:
  assumes planted: "plantProgram dummy (u @ CHR ''['' # body @ CHR '']'' # v) base = Inr (prog, st)"
      and body: "balanced body"
  shows "prog ! (length base + slots u) = Opcode OPEN
       \<and> prog ! (length base + slots u + 1)
           = Operand (length base + slots (u @ CHR ''['' # body) + 2)
       \<and> prog ! (length base + slots (u @ CHR ''['' # body)) = Opcode CLOSE
       \<and> prog ! (length base + slots (u @ CHR ''['' # body) + 1)
           = Operand (length base + slots u + 2)"
proof -
  define a where "a = length base + slots u"
  define b where "b = a + 2 + slots body"
  from planted obtain pf
    where pf: "plantChars dummy (u @ CHR ''['' # body @ CHR '']'' # v) (base, []) = Inr (pf, st)"
      and prog: "prog = pf @ [Opcode HALT]"
    by (auto simp: plantProgram_def split: sum.splits)
  from pf obtain p1 st1
    where u: "plantChars dummy u (base, []) = Inr (p1, st1)"
      and rest1: "plantChars dummy (CHR ''['' # body @ CHR '']'' # v) (p1, st1) = Inr (pf, st)"
    by (elim plantChars_append_Inr) auto
  have len1: "length p1 = a"
    using plantChars_length [OF u] by (simp add: a_def)
  have below: "\<forall>y\<in>set st1. y < a"
    using plantChars_indexes_bound [OF u] len1 by simp
  let ?p1 = "p1 @ [Opcode OPEN, dummy]"
  let ?st1 = "st1 @ [Suc a]"
  from rest1 len1
  have "plantChars dummy (body @ CHR '']'' # v) (?p1, ?st1) = Inr (pf, st)"
    by (simp add: plantChar_cases)
  then obtain p2 st2
    where bd: "plantChars dummy body (?p1, ?st1) = Inr (p2, st2)"
      and rest2: "plantChars dummy (CHR '']'' # v) (p2, st2) = Inr (pf, st)"
    by (elim plantChars_append_Inr) auto
  have st2: "st2 = ?st1"
    by (rule plantChars_balanced_stack [OF bd body])
  have len2: "length p2 = b"
    using plantChars_length [OF bd] len1 by (simp add: b_def)
  have "a \<notin> set ?st1" using below by auto
  with plantChars_frame [OF bd, of a] len1 have p2a: "p2 ! a = Opcode OPEN"
    by (simp add: nth_append)
  let ?p3 = "(p2 @ [Opcode CLOSE])[Suc a := Operand (b + 2)] @ [Operand (a + 2)]"
  from rest2 st2 len2 have v: "plantChars dummy v (?p3, st1) = Inr (pf, st)"
    by (simp add: plantChar_cases)
  have ab: "a + 2 \<le> b" by (simp add: b_def)
  have len3: "length ?p3 = b + 2" using len2 by simp
  have lenf: "b + 2 \<le> length pf"
    using plantChars_length [OF v] len3 by simp
  have keep: "pf ! q = ?p3 ! q" if "a \<le> q" "q < b + 2" for q
  proof -
    from that below have "q \<notin> set st1" by auto
    with plantChars_frame [OF v, of q] that len3 show ?thesis by simp
  qed
  have final: "prog ! q = ?p3 ! q" if "a \<le> q" "q < b + 2" for q
    using keep [OF that] that lenf by (simp add: prog nth_append)
  have "prog ! a = Opcode OPEN"
    using final [of a] ab len2 p2a by (simp add: nth_append)
  moreover have "prog ! (a + 1) = Operand (b + 2)"
    using final [of "a + 1"] ab len2 by (simp add: nth_append)
  moreover have "prog ! b = Opcode CLOSE"
    using final [of b] ab len2 by (simp add: nth_append)
  moreover have "prog ! (b + 1) = Operand (a + 2)"
    using final [of "b + 1"] ab len2 by (simp add: nth_append)
  moreover have "length base + slots (u @ CHR ''['' # body) = b"
    by (simp add: a_def b_def)
  ultimately show ?thesis by (simp add: a_def)
qed

theorem loop_operands_witness:
  "\<exists>prog. plantProgram switch_dummy ''+[>[-]<-]'' [] = Inr (prog, [])
     \<and> prog ! 4 = Opcode OPEN \<and> prog ! 5 = Operand 9
     \<and> prog ! 7 = Opcode CLOSE \<and> prog ! 8 = Operand 6"
proof -
  have planted: "plantProgram switch_dummy (''+[>'' @ CHR ''['' # ''-'' @ CHR '']'' # ''<-]'') [] =
      Inr ([Opcode INCR, Opcode OPEN, Operand 13, Opcode RIGHT, Opcode OPEN, Operand 9,
            Opcode DECR, Opcode CLOSE, Operand 6, Opcode LEFT, Opcode DECR, Opcode CLOSE,
            Operand 3, Opcode HALT], [])"
    by (simp add: plantProgram_def plantChar_cases emit_def opcode_map_def switch_dummy_def)
  have body: "balanced ''-''" by (simp add: balanced_def)
  from loop_operands [OF planted body] planted show ?thesis
    by (simp add: width_def opcode_map_def)
qed

text \<open>
  C2 as stated fails for the operand of the LoopClose: for the source \<open>[]\<close> the LoopOpen
  is at index 0 and the LoopClose at index 2; the operand of the LoopClose is 2, the index
  of the LoopOpen plus 2, not plus 1. (\<open>indexes\<close> holds \<open>program.size()\<close> taken after the
  operation code was pushed, the index of the dummy, and \<open>start + 1\<close> is planted.)
\<close>

theorem close_operand_counterexample:
  "\<exists>prog. plantProgram switch_dummy ''[]'' [] = Inr (prog, [])
     \<and> prog ! 0 = Opcode OPEN \<and> prog ! 1 = Operand (2 + 2)
     \<and> prog ! 2 = Opcode CLOSE \<and> prog ! 3 = Operand 2 \<and> prog ! 3 \<noteq> Operand (0 + 1)"
  by (simp add: plantProgram_def plantChar_cases emit_def opcode_map_def switch_dummy_def)

section \<open>Balanced sources give well-formed programs\<close>

lemma boundaries_snoc:
  "boundaries (s @ [ch]) = insert (slots s + width ch) (boundaries s)"
proof -
  have "{..length (s @ [ch])} = insert (Suc (length s)) {..length s}"
    by auto
  then have "boundaries (s @ [ch]) =
      insert (slots (take (Suc (length s)) (s @ [ch])))
        ((\<lambda>k. slots (take k (s @ [ch]))) ` {..length s})"
    by (simp add: boundaries_def)
  moreover have "(\<lambda>k. slots (take k (s @ [ch]))) ` {..length s} = boundaries s"
    unfolding boundaries_def by (rule image_cong) auto
  ultimately show ?thesis by simp
qed

lemma boundaries_le: "x \<in> boundaries s \<Longrightarrow> x \<le> slots s"
proof -
  assume "x \<in> boundaries s"
  then obtain k where "x = slots (take k s)" by (auto simp: boundaries_def)
  moreover have "slots (take k s) + slots (drop k s) = slots s"
    by (metis append_take_drop_id slots_append)
  ultimately show ?thesis by simp
qed

lemma slots_in_boundaries: "slots s \<in> boundaries s"
  unfolding boundaries_def by (rule image_eqI [where x = "length s"]) auto

lemma zero_in_boundaries: "0 \<in> boundaries s"
  unfolding boundaries_def by (rule image_eqI [where x = 0]) auto

lemma slot_ok_mono:
  assumes "slot_ok B prog i" and "\<forall>x\<in>B. x \<le> L" and "i < L" and "prog' ! i = prog ! i"
  shows "slot_ok (insert (L + w) B) prog' i"
proof -
  have neq: "i \<noteq> L + w" using assms(3) by simp
  show ?thesis
  proof (cases "i \<in> B")
    case True
    with assms(1) obtain oc where oc: "prog ! i = Opcode oc"
      and c: "if oc = OPEN \<or> oc = CLOSE then Suc i \<notin> B \<and> i + 2 \<in> B else Suc i \<in> B"
      by (auto simp: slot_ok_def)
    show ?thesis
    proof (cases "oc = OPEN \<or> oc = CLOSE")
      case True
      with c have "Suc i \<notin> B" "i + 2 \<in> B" by simp_all
      with assms(2) have "Suc i \<noteq> L + w" by auto
      with \<open>i \<in> B\<close> oc True \<open>Suc i \<notin> B\<close> \<open>i + 2 \<in> B\<close> assms(4) show ?thesis
        by (auto simp: slot_ok_def)
    next
      case False
      with c \<open>i \<in> B\<close> oc assms(4) show ?thesis by (auto simp: slot_ok_def)
    qed
  next
    case False
    with assms(1) neq assms(4) show ?thesis by (auto simp: slot_ok_def)
  qed
qed

lemma planted_ok_open:
  assumes "planted_ok s prog idxs"
  shows "planted_ok (s @ ''['') (prog @ [Opcode OPEN, dummy]) (idxs @ [Suc (length prog)])"
proof -
  let ?B = "boundaries s" and ?L = "length prog"
  from assms have L: "?L = slots s" and d: "distinct idxs"
    and ix: "\<forall>y\<in>set idxs. y < ?L \<and> y \<notin> ?B \<and> Suc y \<in> ?B"
    and sl: "\<forall>i<?L. i \<notin> set idxs \<longrightarrow> slot_ok ?B prog i"
    by (auto simp: planted_ok_def)
  have B': "boundaries (s @ ''['') = insert (?L + 2) ?B"
    by (simp add: boundaries_snoc L)
  have le: "\<forall>x\<in>?B. x \<le> ?L" using boundaries_le L by auto
  have LB: "?L \<in> ?B" using slots_in_boundaries [of s] L by simp
  have "length (prog @ [Opcode OPEN, dummy]) = slots (s @ ''['')" by (simp add: L)
  moreover have "distinct (idxs @ [Suc ?L])" using d ix by auto
  moreover have "\<forall>y\<in>set (idxs @ [Suc ?L]). y < length (prog @ [Opcode OPEN, dummy])
      \<and> y \<notin> boundaries (s @ ''['') \<and> Suc y \<in> boundaries (s @ ''['')"
    using ix le by (auto simp: B')
  moreover have "\<forall>i<length (prog @ [Opcode OPEN, dummy]). i \<notin> set (idxs @ [Suc ?L]) \<longrightarrow>
      slot_ok (boundaries (s @ ''['')) (prog @ [Opcode OPEN, dummy]) i"
  proof (intro allI impI)
    fix i assume i: "i < length (prog @ [Opcode OPEN, dummy])" "i \<notin> set (idxs @ [Suc ?L])"
    then consider "i < ?L" | "i = ?L" by force
    then show "slot_ok (boundaries (s @ ''['')) (prog @ [Opcode OPEN, dummy]) i"
    proof cases
      case 1
      with sl i have "slot_ok ?B prog i" by simp
      from slot_ok_mono [OF this le 1, of "prog @ [Opcode OPEN, dummy]" 2] 1 show ?thesis
        by (simp add: B' nth_append)
    next
      case 2
      have "Suc ?L \<notin> ?B" using le by auto
      with 2 LB show ?thesis by (simp add: slot_ok_def B')
    qed
  qed
  ultimately show ?thesis unfolding planted_ok_def by blast
qed

lemma planted_ok_close:
  assumes "planted_ok s prog idxs" and ne: "idxs \<noteq> []"
  shows "planted_ok (s @ '']'')
           ((prog @ [Opcode CLOSE])[last idxs := Operand (length prog + 2)] @ [Operand (Suc (last idxs))])
           (butlast idxs)"
proof -
  let ?B = "boundaries s" and ?L = "length prog" and ?y = "last idxs"
  let ?prog' = "(prog @ [Opcode CLOSE])[?y := Operand (?L + 2)] @ [Operand (Suc ?y)]"
  from assms have L: "?L = slots s" and d: "distinct idxs"
    and ix: "\<forall>y\<in>set idxs. y < ?L \<and> y \<notin> ?B \<and> Suc y \<in> ?B"
    and sl: "\<forall>i<?L. i \<notin> set idxs \<longrightarrow> slot_ok ?B prog i"
    by (auto simp: planted_ok_def)
  have B': "boundaries (s @ '']'') = insert (?L + 2) ?B"
    by (simp add: boundaries_snoc L)
  have le: "\<forall>x\<in>?B. x \<le> ?L" using boundaries_le L by auto
  have LB: "?L \<in> ?B" using slots_in_boundaries [of s] L by simp
  have yin: "?y \<in> set idxs" using ne by simp
  with ix have y: "?y < ?L" "?y \<notin> ?B" "Suc ?y \<in> ?B" by auto
  have sets: "set idxs = insert ?y (set (butlast idxs))"
  proof -
    have "set idxs = set (butlast idxs @ [?y])"
      by (simp only: append_butlast_last_id [OF ne])
    then show ?thesis by simp
  qed
  have ynot: "?y \<notin> set (butlast idxs)"
  proof -
    from d have "distinct (butlast idxs @ [?y])"
      by (simp only: append_butlast_last_id [OF ne])
    then show ?thesis by simp
  qed
  have sub: "set (butlast idxs) \<subseteq> set idxs" by (auto dest: in_set_butlastD)
  have "length ?prog' = slots (s @ '']'')" by (simp add: L)
  moreover have "distinct (butlast idxs)" using d by (rule distinct_butlast)
  moreover have "\<forall>z\<in>set (butlast idxs). z < length ?prog'
      \<and> z \<notin> boundaries (s @ '']'') \<and> Suc z \<in> boundaries (s @ '']'')"
  proof
    fix z assume "z \<in> set (butlast idxs)"
    with sub have "z \<in> set idxs" by blast
    with ix have "z < ?L" "z \<notin> ?B" "Suc z \<in> ?B" by auto
    then show "z < length ?prog' \<and> z \<notin> boundaries (s @ '']'') \<and> Suc z \<in> boundaries (s @ '']'')"
      by (simp add: B')
  qed
  moreover have "\<forall>i<length ?prog'. i \<notin> set (butlast idxs) \<longrightarrow>
      slot_ok (boundaries (s @ '']'')) ?prog' i"
  proof (intro allI impI)
    fix i assume i: "i < length ?prog'" "i \<notin> set (butlast idxs)"
    then consider "i < ?L" "i \<noteq> ?y" | "i = ?y" | "i = ?L" | "i = Suc ?L" by force
    then show "slot_ok (boundaries (s @ '']'')) ?prog' i"
    proof cases
      case 1
      with i sets have "i \<notin> set idxs" by simp
      with sl 1 have "slot_ok ?B prog i" by simp
      from slot_ok_mono [OF this le 1(1), of ?prog' 2] 1 show ?thesis
        by (simp add: B' nth_append)
    next
      case 2
      with y show ?thesis by (simp add: slot_ok_def B' nth_append)
    next
      case 3
      have "Suc ?L \<notin> ?B" using le by auto
      with 3 LB y show ?thesis by (simp add: slot_ok_def B' nth_append)
    next
      case 4
      have "Suc ?L \<notin> ?B" using le by auto
      with 4 y show ?thesis by (simp add: slot_ok_def B' nth_append)
    qed
  qed
  ultimately show ?thesis unfolding planted_ok_def by blast
qed

lemma emit_cases:
  assumes "ch \<noteq> CHR ''[''" and "ch \<noteq> CHR '']''"
  obtains "emit ch = []" "width ch = 0"
        | oc where "emit ch = [Opcode oc]" "width ch = 1" "oc \<noteq> OPEN" "oc \<noteq> CLOSE"
proof (cases "opcode_map ch")
  case None
  then have "emit ch = []" "width ch = 0" by (simp_all add: emit_def width_def)
  then show ?thesis by (rule that(1))
next
  case (Some oc)
  with assms have "oc \<noteq> OPEN" "oc \<noteq> CLOSE"
    using opcode_map_OPEN_iff opcode_map_CLOSE_iff by auto
  moreover from Some assms have "emit ch = [Opcode oc]" "width ch = 1"
    by (simp_all add: emit_def width_def)
  ultimately show ?thesis using that(2) by blast
qed

lemma planted_ok_other:
  assumes "planted_ok s prog idxs" and "ch \<noteq> CHR ''[''" and "ch \<noteq> CHR '']''"
  shows "planted_ok (s @ [ch]) (prog @ emit ch) idxs"
  using assms(2,3)
proof (cases rule: emit_cases)
  case 1
  have "boundaries (s @ [ch]) = boundaries s"
    using slots_in_boundaries [of s] by (simp add: boundaries_snoc 1 insert_absorb)
  with assms(1) 1 show ?thesis by (auto simp: planted_ok_def)
next
  case (2 oc)
  let ?B = "boundaries s" and ?L = "length prog"
  from assms have L: "?L = slots s" and d: "distinct idxs"
    and ix: "\<forall>y\<in>set idxs. y < ?L \<and> y \<notin> ?B \<and> Suc y \<in> ?B"
    and sl: "\<forall>i<?L. i \<notin> set idxs \<longrightarrow> slot_ok ?B prog i"
    by (auto simp: planted_ok_def)
  have B': "boundaries (s @ [ch]) = insert (?L + 1) ?B"
    by (simp add: boundaries_snoc L 2)
  have le: "\<forall>x\<in>?B. x \<le> ?L" using boundaries_le L by auto
  have LB: "?L \<in> ?B" using slots_in_boundaries [of s] L by simp
  have "length (prog @ emit ch) = slots (s @ [ch])" by (simp add: L 2)
  moreover have "\<forall>y\<in>set idxs. y < length (prog @ emit ch)
      \<and> y \<notin> boundaries (s @ [ch]) \<and> Suc y \<in> boundaries (s @ [ch])"
    using ix le by (auto simp: B' 2)
  moreover have "\<forall>i<length (prog @ emit ch). i \<notin> set idxs \<longrightarrow>
      slot_ok (boundaries (s @ [ch])) (prog @ emit ch) i"
  proof (intro allI impI)
    fix i assume i: "i < length (prog @ emit ch)" "i \<notin> set idxs"
    then consider "i < ?L" | "i = ?L" by (force simp: 2)
    then show "slot_ok (boundaries (s @ [ch])) (prog @ emit ch) i"
    proof cases
      case 1
      with sl i have "slot_ok ?B prog i" by simp
      from slot_ok_mono [OF this le 1, of "prog @ emit ch" 1] 1 show ?thesis
        by (simp add: B' nth_append)
    next
      case 2
      with \<open>emit ch = [Opcode oc]\<close> \<open>oc \<noteq> OPEN\<close> \<open>oc \<noteq> CLOSE\<close> LB show ?thesis
        by (simp add: slot_ok_def B')
    qed
  qed
  ultimately show ?thesis using d unfolding planted_ok_def by blast
qed

lemma planted_ok_plantChars:
  assumes "plantChars dummy rest (prog, idxs) = Inr (prog', idxs')"
  shows "planted_ok s prog idxs \<Longrightarrow> planted_ok (s @ rest) prog' idxs'"
  using assms
proof (induction arbitrary: s rule: plantChars_induct)
  case (Nil p st)
  then show ?case by simp
next
  case (Open rest p st p' st')
  from Open.IH [OF planted_ok_open [OF Open.prems]] show ?case by simp
next
  case (Close rest p st p' st')
  from Close.IH [OF planted_ok_close [OF Close.prems Close.hyps(1)]] show ?case by simp
next
  case (Other ch rest p st p' st')
  from Other.IH [OF planted_ok_other [OF Other.prems Other.hyps(1,2)]] show ?case by simp
qed

lemma planted_ok_empty: "planted_ok [] [] []"
  by (simp add: planted_ok_def)

lemma balanced_plantChars:
  assumes "balanced src"
  obtains p where "plantChars dummy src (base, []) = Inr (p, [])"
proof (cases "plantChars dummy src (base, [])")
  case (Inl f)
  from plantChars_Inl_depth [OF Inl] assms show ?thesis by (simp add: balanced_def)
next
  case (Inr r)
  obtain p st where r: "r = (p, st)" by (cases r)
  with Inr plantChars_Inr_depth [of dummy src base "[]" p st] assms have "st = []"
    by (simp add: balanced_def)
  with Inr r that show ?thesis by simp
qed

lemma balanced_well_formed:
  assumes "balanced src"
  obtains prog where "plantProgram dummy src [] = Inr (prog, [])"
    and "length prog = Suc (slots src)"
    and "well_formed (boundaries src) prog"
    and "\<forall>i<length prog. i \<notin> boundaries src \<longrightarrow> (\<exists>n. prog ! i = Operand n \<and> n \<in> boundaries src)"
proof -
  let ?B = "boundaries src"
  from assms obtain p where p: "plantChars dummy src ([], []) = Inr (p, [])"
    by (rule balanced_plantChars)
  from planted_ok_plantChars [OF p planted_ok_empty] have ok: "planted_ok src p []" by simp
  then have len: "length p = slots src"
    and sl: "\<forall>i<length p. slot_ok ?B p i"
    by (auto simp: planted_ok_def)
  let ?prog = "p @ [Opcode HALT]"
  have le: "\<forall>x\<in>?B. x \<le> length p" using boundaries_le len by auto
  have operand: "\<exists>n. ?prog ! i = Operand n \<and> n \<in> ?B" if "i < length ?prog" "i \<notin> ?B" for i
  proof -
    from that slots_in_boundaries [of src] len have "i < length p"
      by (cases "i = length p") auto
    moreover from this sl have "slot_ok ?B p i" by simp
    ultimately show ?thesis using that by (auto simp: slot_ok_def nth_append)
  qed
  have wf: "well_formed ?B ?prog"
    unfolding well_formed_def
  proof (intro conjI ballI)
    show "0 \<in> ?B" by (rule zero_in_boundaries)
  next
    fix i assume iB: "i \<in> ?B"
    with le show "i < length ?prog" by auto
    show "\<exists>oc. ?prog ! i = Opcode oc \<and>
            (if oc = OPEN \<or> oc = CLOSE then
               Suc i < length ?prog \<and> (\<exists>n. ?prog ! Suc i = Operand n \<and> n \<in> ?B) \<and> i + 2 \<in> ?B
             else oc = HALT \<or> Suc i \<in> ?B)"
    proof (cases "i = length p")
      case True
      then show ?thesis by simp
    next
      case False
      with iB le have i: "i < length p" by force
      with sl have "slot_ok ?B p i" by simp
      with iB obtain oc where oc: "p ! i = Opcode oc"
        and c: "if oc = OPEN \<or> oc = CLOSE then Suc i \<notin> ?B \<and> i + 2 \<in> ?B else Suc i \<in> ?B"
        by (auto simp: slot_ok_def)
      show ?thesis
      proof (cases "oc = OPEN \<or> oc = CLOSE")
        case True
        with c have n: "Suc i \<notin> ?B" and t: "i + 2 \<in> ?B" by simp_all
        from t le have "Suc i < length ?prog" by force
        from operand [OF this n] True oc i t \<open>Suc i < length ?prog\<close> show ?thesis
          by (auto simp: nth_append)
      next
        case False
        with c oc i show ?thesis by (auto simp: nth_append)
      qed
    qed
  qed
  have "plantProgram dummy src [] = Inr (?prog, [])"
    using p by (simp add: plantProgram_def)
  moreover have "length ?prog = Suc (slots src)" using len by simp
  ultimately show ?thesis using wf operand that by blast
qed

lemma well_formed_step:
  assumes wf: "well_formed B prog" and pc: "pc m \<in> B"
  shows "case step prog m of
           Next m' \<Rightarrow> pc m' \<in> B
         | Done m' \<Rightarrow> True
         | Crash f \<Rightarrow> f = TapeOutOfRange"
proof -
  from wf pc obtain oc where lt: "pc m < length prog" and oc: "prog ! pc m = Opcode oc"
    and c: "if oc = OPEN \<or> oc = CLOSE then
              Suc (pc m) < length prog \<and> (\<exists>n. prog ! Suc (pc m) = Operand n \<and> n \<in> B)
              \<and> pc m + 2 \<in> B
            else oc = HALT \<or> Suc (pc m) \<in> B"
    unfolding well_formed_def by blast
  show ?thesis
  proof (cases "oc = OPEN \<or> oc = CLOSE")
    case True
    with c obtain n where "Suc (pc m) < length prog" "prog ! Suc (pc m) = Operand n" "n \<in> B"
      "pc m + 2 \<in> B" by auto
    with True lt oc show ?thesis
      by (auto simp: step_def branch_def in_tape_def Let_def)
  next
    case False
    with c have "oc = HALT \<or> Suc (pc m) \<in> B" by simp
    with False lt oc show ?thesis
      by (cases oc) (auto simp: step_def in_tape_def poke_def Let_def split: list.splits)
  qed
qed

lemma well_formed_run:
  assumes "well_formed B prog"
  shows "pc m \<in> B \<Longrightarrow> run n prog m = Crashed f \<Longrightarrow> f = TapeOutOfRange"
proof (induction n arbitrary: m)
  case 0
  then show ?case by simp
next
  case (Suc n)
  from well_formed_step [OF assms Suc.prems(1)] Suc.prems(2) Suc.IH show ?case
    by (cases "step prog m") auto
qed

subsection \<open>C9: the program counter stays inside a balanced program\<close>

text \<open>
  C9. A balanced source, planted by a new engine, gives a program with an empty stack
  left, in which every operand is an index of the program (so at most the index of the
  trailing HALT) at which an operation code stands, and every LoopOpen and LoopClose is
  followed by an operand (no dummy is left). Running it from index 0, on any memory, any
  cursor and any input, for any number of steps, never reads the program out of range,
  never dispatches an operand and never reads a dummy as an operand: the only fault left
  is a cursor outside the tape.
\<close>

theorem balanced_program_safe:
  assumes "balanced src"
  shows "\<exists>prog. plantProgram dummy src [] = Inr (prog, [])
     \<and> (\<forall>i<length prog. \<forall>n. prog ! i = Operand n \<longrightarrow>
           n < length prog \<and> (\<exists>oc. prog ! n = Opcode oc))
     \<and> (\<forall>i<length prog. prog ! i = Opcode OPEN \<or> prog ! i = Opcode CLOSE \<longrightarrow>
           (\<exists>n. prog ! Suc i = Operand n))
     \<and> (\<forall>fuel m f. pc m = 0 \<longrightarrow> run fuel prog m = Crashed f \<longrightarrow> f = TapeOutOfRange)"
proof -
  let ?B = "boundaries src"
  from assms obtain prog where planted: "plantProgram dummy src [] = Inr (prog, [])"
    and len: "length prog = Suc (slots src)"
    and wf: "well_formed ?B prog"
    and operand: "\<forall>i<length prog. i \<notin> ?B \<longrightarrow> (\<exists>n. prog ! i = Operand n \<and> n \<in> ?B)"
    by (rule balanced_well_formed)
  have opcode: "i < length prog \<and> (\<exists>oc. prog ! i = Opcode oc)" if "i \<in> ?B" for i
    using wf that unfolding well_formed_def by blast
  have a: "\<forall>i<length prog. \<forall>n. prog ! i = Operand n \<longrightarrow>
           n < length prog \<and> (\<exists>oc. prog ! n = Opcode oc)"
  proof (intro allI impI)
    fix i n assume i: "i < length prog" and n: "prog ! i = Operand n"
    with opcode [of i] have "i \<notin> ?B" by auto
    with operand i n have "n \<in> ?B" by auto
    then show "n < length prog \<and> (\<exists>oc. prog ! n = Opcode oc)" by (rule opcode)
  qed
  have b: "\<forall>i<length prog. prog ! i = Opcode OPEN \<or> prog ! i = Opcode CLOSE \<longrightarrow>
           (\<exists>n. prog ! Suc i = Operand n)"
  proof (intro allI impI)
    fix i assume i: "i < length prog" and o: "prog ! i = Opcode OPEN \<or> prog ! i = Opcode CLOSE"
    with operand have "i \<in> ?B" by auto
    with wf o show "\<exists>n. prog ! Suc i = Operand n"
      unfolding well_formed_def by fastforce
  qed
  have c: "\<forall>fuel m f. pc m = 0 \<longrightarrow> run fuel prog m = Crashed f \<longrightarrow> f = TapeOutOfRange"
  proof (intro allI impI)
    fix fuel m f assume "pc m = 0" and r: "run fuel prog m = Crashed f"
    then have "pc m \<in> ?B" by (simp add: zero_in_boundaries)
    from well_formed_run [OF wf this r] show "f = TapeOutOfRange" .
  qed
  from planted a b c show ?thesis by blast
qed

theorem balanced_program_safe_witness:
  "balanced ''+[>[-]<-]'' \<and>
   (\<exists>prog. plantProgram switch_dummy ''+[>[-]<-]'' [] = Inr (prog, [])
      \<and> (\<forall>fuel m f. pc m = 0 \<longrightarrow> run fuel prog m = Crashed f \<longrightarrow> f = TapeOutOfRange))"
proof -
  have b: "balanced ''+[>[-]<-]''" by (simp add: balanced_def)
  from balanced_program_safe [OF b, of switch_dummy] b show ?thesis by blast
qed

section \<open>The engines compared\<close>

lemma demo_run_numeral:
  "demo_run (numeral k) prog m =
     (case demo_step prog m of
        Next m' \<Rightarrow> demo_run (pred_numeral k) prog m'
      | Done m' \<Rightarrow> Finished m'
      | Crash f \<Rightarrow> Crashed f)"
  by (simp add: numeral_eq_Suc)

lemmas demo_defs =
  demo_runFile_def demo_plantProgram_def demo_plantChar_def OperatorToOpCodeIndex_def
  numberOfOpCodes_def demo_opcode_map_def Engine_new_def start_def

lemma num_255: "(255 :: num) = - 1"
  by simp

subsection \<open>C4: LoopClose in the demonstration engine\<close>

text \<open>
  C4 holds in the switch engines and in the label engines of ComputedGotos.cpp and
  main2.cpp (see the end of this section), and fails in the engine of
  direct\_threading\_demo.cpp. On the program of \<open>+[-]\<close>, with \<open>pc\<close> at the LoopClose: the
  demonstration engine jumps back to index 3 when the cell is 0 and falls through to
  index 6 when the cell is 1; \<open>step\<close> does the opposite, as the claim says.
\<close>

theorem demo_close_jumps_on_zero:
  "demo_step [Opcode INCR, Opcode OPEN, Operand 6, Opcode DECR, Opcode CLOSE, Operand 3, Opcode HALT]
      \<lparr>pc = 4, loc = 0, tape = [0], cin = [], cout = []\<rparr>
     = Next \<lparr>pc = 3, loc = 0, tape = [0], cin = [], cout = []\<rparr>
   \<and> demo_step [Opcode INCR, Opcode OPEN, Operand 6, Opcode DECR, Opcode CLOSE, Operand 3, Opcode HALT]
      \<lparr>pc = 4, loc = 0, tape = [1], cin = [], cout = []\<rparr>
     = Next \<lparr>pc = 6, loc = 0, tape = [1], cin = [], cout = []\<rparr>
   \<and> step [Opcode INCR, Opcode OPEN, Operand 6, Opcode DECR, Opcode CLOSE, Operand 3, Opcode HALT]
      \<lparr>pc = 4, loc = 0, tape = [0], cin = [], cout = []\<rparr>
     = Next \<lparr>pc = 6, loc = 0, tape = [0], cin = [], cout = []\<rparr>
   \<and> step [Opcode INCR, Opcode OPEN, Operand 6, Opcode DECR, Opcode CLOSE, Operand 3, Opcode HALT]
      \<lparr>pc = 4, loc = 0, tape = [1], cin = [], cout = []\<rparr>
     = Next \<lparr>pc = 3, loc = 0, tape = [1], cin = [], cout = []\<rparr>"
  by (simp add: demo_step_def machine_defs)

subsection \<open>C1: the engines are not all equivalent\<close>

text \<open>
  C1 fails for the engine of direct\_threading\_demo.cpp. The source \<open>+[-]\<close> on a new
  engine with no input: the demonstration engine halts with 255 in the first cell, the
  switch engine and the label engine with 0. The source \<open>+>.\<close>: the demonstration engine
  writes the byte 1 (its RIGHT does not move the cursor), the switch engine the byte 0.
\<close>

theorem demo_engine_diverges:
  "demo_runFile 7 ''+[-]'' Engine_new [] =
     Finished (\<lparr>program = [Opcode INCR, Opcode OPEN, Operand 6, Opcode DECR, Opcode CLOSE,
                              Operand 3, Opcode HALT],
                 memory = (replicate 30000 0)[0 := 255]\<rparr>, [], [])
   \<and> runMacros 7 ''+[-]'' Engine_new [] =
     Finished (\<lparr>program = [Opcode INCR, Opcode OPEN, Operand 6, Opcode DECR, Opcode CLOSE,
                              Operand 3, Opcode HALT],
                 memory = (replicate 30000 0)[0 := 0]\<rparr>, [], [])
   \<and> runFile 7 ''+[-]'' Engine_new [] =
     Finished (\<lparr>program = [Opcode INCR, Opcode OPEN, Operand 6, Opcode DECR, Opcode CLOSE,
                              Operand 3, Opcode HALT],
                 memory = (replicate 30000 0)[0 := 0]\<rparr>, [], [])
   \<and> demo_runFile 4 ''+>.'' Engine_new [] =
     Finished (\<lparr>program = [Opcode INCR, Opcode RIGHT, Opcode PUT, Opcode HALT],
                 memory = (replicate 30000 0)[0 := 1]\<rparr>, [1], [])
   \<and> runMacros 4 ''+>.'' Engine_new [] =
     Finished (\<lparr>program = [Opcode INCR, Opcode RIGHT, Opcode PUT, Opcode HALT],
                 memory = (replicate 30000 0)[0 := 1]\<rparr>, [0], [])"
  by (simp add: demo_defs demo_step_def demo_run_numeral engine_defs machine_defs run_numeral
      Let_def num_255)

subsection \<open>What the engines do share\<close>

text \<open>
  The planter of the demonstration file is the planter of the label engines: the same
  characters are planted, with the same dummy.
\<close>

lemma demo_plantChar_eq: "demo_plantChar ch st = plantChar label_dummy ch st"
  by (cases st)
     (simp add: demo_plantChar_def plantChar_def OperatorToOpCodeIndex_def numberOfOpCodes_def
        demo_opcode_map_def opcode_map_def label_dummy_def Let_def)

lemma demo_plantChars_eq: "demo_plantChars s st = plantChars label_dummy s st"
  by (induction s arbitrary: st) (auto simp: demo_plantChar_eq split: sum.splits)

lemma demo_plantProgram_eq: "demo_plantProgram src base = plantProgram label_dummy src base"
  by (auto simp: demo_plantProgram_def plantProgram_def demo_plantChars_eq
      OperatorToOpCodeIndex_def demo_opcode_map_def split: sum.splits)

text \<open>
  The dummy planted after \<open>[\<close> has no influence on anything but the pending slots
  themselves; once the stack is empty the planted program does not depend on it.
\<close>

lemma plantChars_other_dummy:
  assumes "plantChars d s (p, st) = Inr (p', st')"
  shows "agree st p q \<Longrightarrow> \<exists>q'. plantChars d2 s (q, st) = Inr (q', st') \<and> agree st' p' q'"
  using assms
proof (induction arbitrary: q rule: plantChars_induct)
  case (Nil p st)
  then show ?case by simp
next
  case (Open rest p st p' st')
  from Open.prems have len: "length q = length p" by (simp add: agree_def)
  from Open.prems have "agree (st @ [Suc (length p)]) (p @ [Opcode OPEN, d]) (q @ [Opcode OPEN, d2])"
    by (auto simp: agree_def nth_append less_Suc_eq)
  from Open.IH [OF this] len show ?case by (simp add: plantChar_cases)
next
  case (Close rest p st p' st')
  from Close.prems have len: "length q = length p" by (simp add: agree_def)
  have sets: "set st = insert (last st) (set (butlast st))"
  proof -
    have "set st = set (butlast st @ [last st])"
      by (simp only: append_butlast_last_id [OF Close.hyps(1)])
    then show ?thesis by simp
  qed
  have "agree (butlast st)
          ((p @ [Opcode CLOSE])[last st := Operand (length p + 2)] @ [Operand (Suc (last st))])
          ((q @ [Opcode CLOSE])[last st := Operand (length q + 2)] @ [Operand (Suc (last st))])"
    unfolding agree_def
  proof (intro conjI allI impI)
    show "length ((q @ [Opcode CLOSE])[last st := Operand (length q + 2)] @ [Operand (Suc (last st))])
        = length ((p @ [Opcode CLOSE])[last st := Operand (length p + 2)] @ [Operand (Suc (last st))])"
      using len by simp
  next
    fix i
    assume i: "i < length ((p @ [Opcode CLOSE])[last st := Operand (length p + 2)] @ [Operand (Suc (last st))])"
      and n: "i \<notin> set (butlast st)"
    show "((q @ [Opcode CLOSE])[last st := Operand (length q + 2)] @ [Operand (Suc (last st))]) ! i
        = ((p @ [Opcode CLOSE])[last st := Operand (length p + 2)] @ [Operand (Suc (last st))]) ! i"
    proof (cases "i = last st")
      case True
      with i len show ?thesis by (simp add: nth_append nth_list_update)
    next
      case False
      with n sets have "i \<notin> set st" by simp
      with Close.prems have "i < length p \<Longrightarrow> q ! i = p ! i" by (simp add: agree_def)
      with False i len show ?thesis by (auto simp: nth_append nth_list_update less_Suc_eq)
    qed
  qed
  from Close.IH [OF this] len Close.hyps(1) show ?case by (simp add: plantChar_cases)
next
  case (Other ch rest p st p' st')
  from Other.prems have "agree st (p @ emit ch) (q @ emit ch)"
    by (auto simp: agree_def nth_append)
  from Other.IH [OF this] Other.hyps(1,2) show ?case by (simp add: plantChar_cases)
qed

lemma agree_Nil: "agree [] p q \<Longrightarrow> q = p"
  by (auto simp: agree_def intro: nth_equalityI)

lemma plantProgram_any_dummy:
  assumes "plantProgram d src base = Inr (prog, [])"
  shows "plantProgram d2 src base = Inr (prog, [])"
proof -
  from assms obtain p where p: "plantChars d src (base, []) = Inr (p, [])"
    and prog: "prog = p @ [Opcode HALT]"
    by (auto simp: plantProgram_def split: sum.splits)
  have "agree [] base base" by (simp add: agree_def)
  from plantChars_other_dummy [OF p this, of d2] obtain q'
    where "plantChars d2 src (base, []) = Inr (q', [])" "agree [] p q'" by blast
  with agree_Nil prog show ?thesis by (auto simp: plantProgram_def)
qed

text \<open>
  For a balanced source the label engines of ComputedGotos.cpp and main2.cpp
  (\<open>runFile\<close>) and the switch engines of Switch.cpp (\<open>runMacros\<close>) give the same outcome
  on every engine state, every input and every amount of fuel: the same output, the same
  memory, the same input consumed.
\<close>

theorem label_and_switch_engines_agree:
  assumes "balanced src"
  shows "runFile n src e inp = runMacros n src e inp"
proof -
  from assms obtain p where "plantChars switch_dummy src (program e, []) = Inr (p, [])"
    by (rule balanced_plantChars)
  then have a: "plantProgram switch_dummy src (program e) = Inr (p @ [Opcode HALT], [])"
    by (simp add: plantProgram_def)
  from plantProgram_any_dummy [OF a]
  have "plantProgram label_dummy src (program e) = Inr (p @ [Opcode HALT], [])" .
  with a show ?thesis by (simp add: runFile_def runMacros_def run_engine_def)
qed

theorem label_and_switch_engines_agree_witness:
  "balanced ''+[-]'' \<and> runFile 7 ''+[-]'' Engine_new [] = runMacros 7 ''+[-]'' Engine_new []"
proof -
  have b: "balanced ''+[-]''" by (simp add: balanced_def)
  from label_and_switch_engines_agree [OF b, of 7 Engine_new "[]"] b show ?thesis by simp
qed

text \<open>
  OPEN and CLOSE in the switch and label engines: the operand after the operation code is
  read and skipped; OPEN continues at the operand when the cell is zero, CLOSE when it
  is not.
\<close>

theorem branch_semantics:
  assumes "Suc (pc m) < length prog" and "prog ! Suc (pc m) = Operand n" and "in_tape m"
  shows "(prog ! pc m = Opcode OPEN \<longrightarrow>
            step prog m = Next (m\<lparr>pc := if peek m = 0 then n else pc m + 2\<rparr>))
       \<and> (prog ! pc m = Opcode CLOSE \<longrightarrow>
            step prog m = Next (m\<lparr>pc := if peek m \<noteq> 0 then n else pc m + 2\<rparr>))"
  using assms by (simp add: machine_defs Let_def)

theorem branch_semantics_witness:
  "step [Opcode OPEN, Operand 4, Opcode CLOSE, Operand 2, Opcode HALT]
      \<lparr>pc = 2, loc = 0, tape = [5], cin = [], cout = []\<rparr>
     = Next \<lparr>pc = 2, loc = 0, tape = [5], cin = [], cout = []\<rparr>"
  using branch_semantics [of "\<lparr>pc = 2, loc = 0, tape = [5], cin = [], cout = []\<rparr>"
      "[Opcode OPEN, Operand 4, Opcode CLOSE, Operand 2, Opcode HALT]" 2]
  by (simp add: in_tape_def peek_def)

end
